theory Spec2Isabelle
  imports Main "HOL-Library.Word"
begin

unbundle bit_operations_syntax

section \<open>Event index (matrix\_event\_index.c)\<close>

text \<open>
  The event index object holds one field, declared \<^verbatim>\<open>uint16_t eventIndex\<close> in
  matrix\_event\_index.h; the functions take and return \<^verbatim>\<open>uint8_t\<close> indices.
\<close>

record MATRIX_EVENT_INDEX_OBJECT =
  eventIndex :: "16 word"

text \<open>
  The C expression \<^verbatim>\<open>int8_t result = index - MatrixEventIndex.eventIndex\<close>: both operands
  are promoted to \<^verbatim>\<open>int\<close>, the difference is converted to \<^verbatim>\<open>int8_t\<close> (low eight bits, read
  as two's complement).
\<close>

definition index_result :: "8 word \<Rightarrow> MATRIX_EVENT_INDEX_OBJECT \<Rightarrow> int" where
  "index_result index s = sint (word_of_int (uint index - uint (eventIndex s)) :: 8 word)"

definition MatrixEventIndex_Reset :: "MATRIX_EVENT_INDEX_OBJECT \<Rightarrow> MATRIX_EVENT_INDEX_OBJECT" where
  "MatrixEventIndex_Reset s = s\<lparr>eventIndex := 0\<rparr>"

definition Matrix_GetEventIndex :: "MATRIX_EVENT_INDEX_OBJECT \<Rightarrow> 8 word \<times> MATRIX_EVENT_INDEX_OBJECT" where
  "Matrix_GetEventIndex s =
     (let s' = (if eventIndex s = 0 then s\<lparr>eventIndex := eventIndex s + 1\<rparr> else s)
      in (ucast (eventIndex s'), s'))"

definition Matrix_NextEventIndex :: "MATRIX_EVENT_INDEX_OBJECT \<Rightarrow> MATRIX_EVENT_INDEX_OBJECT" where
  "Matrix_NextEventIndex s =
     (let s1 = s\<lparr>eventIndex := eventIndex s + 1\<rparr>
      in if eventIndex s1 = 0 then s1\<lparr>eventIndex := eventIndex s1 + 1\<rparr> else s1)"

definition Matrix_NewEventIndex :: "8 word \<Rightarrow> MATRIX_EVENT_INDEX_OBJECT \<Rightarrow> MATRIX_EVENT_INDEX_OBJECT" where
  "Matrix_NewEventIndex index s =
     (if index = 0 then s
      else if eventIndex s = 0 \<or> index_result index s > 0
           then s\<lparr>eventIndex := ucast index\<rparr>
           else s)"

definition Matrix_IsEventIndexExpired :: "8 word \<Rightarrow> MATRIX_EVENT_INDEX_OBJECT \<Rightarrow> bool" where
  "Matrix_IsEventIndexExpired index s =
     (if index = 0 then False else index_result index s < 0)"


section \<open>Token keys (matrix\_tokens.h, matrix\_tokens.c, matrix\_token\_regions.h)\<close>

text \<open>
  The \<^verbatim>\<open>TOKEN\<close> structure. The C field \<^verbatim>\<open>value\<close> is an \<^verbatim>\<open>int32_t\<close>; it is kept as a
  32-bit word and read as signed where the code compares it.
\<close>

record TOKEN =
  flags :: "8 word"
  address :: "8 word"
  key :: "16 word"
  val :: "32 word"

abbreviation (input) KeyPrefix_Command :: "8 word" where "KeyPrefix_Command \<equiv> 0x00"
abbreviation (input) KeyPrefix_OutputStatus :: "8 word" where "KeyPrefix_OutputStatus \<equiv> 0x20"
abbreviation (input) KeyPrefix_InputStatus :: "8 word" where "KeyPrefix_InputStatus \<equiv> 0x40"
abbreviation (input) KeyPrefix_BinaryRepeat :: "8 word" where "KeyPrefix_BinaryRepeat \<equiv> 0x60"
abbreviation (input) KeyPrefix_AnalogRepeat :: "8 word" where "KeyPrefix_AnalogRepeat \<equiv> 0x80"
abbreviation (input) KeyPrefix_PatternSync :: "8 word" where "KeyPrefix_PatternSync \<equiv> 0xA0"
abbreviation (input) KeyPrefix_Mask :: "8 word" where "KeyPrefix_Mask \<equiv> 0xE0"

abbreviation (input) KeyNull :: "16 word" where "KeyNull \<equiv> 0"
abbreviation (input) KeyRequestAddress :: "16 word" where "KeyRequestAddress \<equiv> 3000"
abbreviation (input) KeyResponseAddressInUse :: "16 word" where "KeyResponseAddressInUse \<equiv> 3001"
abbreviation (input) KeyTokenSequencerSync :: "16 word" where "KeyTokenSequencerSync \<equiv> 5001"
abbreviation (input) KeyTokenSequencerSyncRange :: "16 word" where "KeyTokenSequencerSyncRange \<equiv> 7007"

definition Key_GetPrefix :: "16 word \<Rightarrow> 8 word" where
  "Key_GetPrefix k = ucast (drop_bit 8 k AND 0xE0)"

definition Key_WithoutPrefix :: "16 word \<Rightarrow> 16 word" where
  "Key_WithoutPrefix k = k AND 0x1FFF"

definition Key_IsInputStatus :: "16 word \<Rightarrow> bool" where
  "Key_IsInputStatus k = (k AND 0xE000 = 0x4000)"

definition Key_IsOutputStatus :: "16 word \<Rightarrow> bool" where
  "Key_IsOutputStatus k = (k AND 0xE000 = 0x2000)"

definition Key_IsCommand :: "16 word \<Rightarrow> bool" where
  "Key_IsCommand k = (k AND 0xE000 = 0x0000)"

definition Key_IsLocalVariable :: "16 word \<Rightarrow> bool" where
  "Key_IsLocalVariable k = (let k' = k AND 0x1FFF in k' \<ge> 1 \<and> k' < 1 + 199)"

definition Key_IsFtpRequest :: "16 word \<Rightarrow> bool" where
  "Key_IsFtpRequest k = (let k' = k AND 0x1FFF in k' \<ge> 8160 \<and> k' < 8160 + 10)"

definition Key_IsFtpResponse :: "16 word \<Rightarrow> bool" where
  "Key_IsFtpResponse k = (let k' = k AND 0x1FFF in k' \<ge> 8170 \<and> k' < 8170 + 22)"

definition Key_ValueSize :: "16 word \<Rightarrow> nat" where
  "Key_ValueSize k =
     (let k' = k AND 0x1FFF in
      if k' = 0 then 0
      else if 200 > k' then
        (if 120 > k' then 1
         else if 170 > k' then 2
         else if 190 > k' then 4
         else 0)
      else if 5000 > k' then 1
      else if 7000 > k' then 2
      else if 8000 > k' then 4
      else if 8150 > k' then 0
      else if 8160 > k' then 3
      else 0)"

text \<open>
  The loop \<^verbatim>\<open>while (valueSize--) sink(value >> (8 * valueSize))\<close> shared by the codec and
  the transmitter: the low \<open>n\<close> bytes of the value, most significant first.
\<close>

fun value_bytes :: "nat \<Rightarrow> 32 word \<Rightarrow> 8 word list" where
  "value_bytes 0 v = []"
| "value_bytes (Suc n) v = ucast (drop_bit (8 * n) v) # value_bytes n v"

section \<open>Message CRC (matrix\_crc.c)\<close>

fun crc_bits :: "nat \<Rightarrow> 8 word \<Rightarrow> 16 word \<Rightarrow> 16 word" where
  "crc_bits 0 byte c = c"
| "crc_bits (Suc n) byte c =
     crc_bits n (drop_bit 1 byte)
       (if (byte XOR ucast c) AND 1 \<noteq> 0 then drop_bit 1 c XOR 0xA001 else drop_bit 1 c)"

definition Matrix_AddByteToCRC16 :: "8 word \<Rightarrow> 16 word \<Rightarrow> 16 word" where
  "Matrix_AddByteToCRC16 byte c = crc_bits 8 byte c"

definition Matrix_ComputeCRC16 :: "8 word list \<Rightarrow> 16 word" where
  "Matrix_ComputeCRC16 bytes =
     (if bytes = [] then 0 else foldl (\<lambda>c b. Matrix_AddByteToCRC16 b c) 0 bytes)"

text \<open>
  \<open>Matrix_IsMessageChecksumValid bytes numBytes\<close>: \<open>bytes\<close> is the memory at the
  pointer, \<open>numBytes\<close> the unsigned count. With \<open>numBytes = 1\<close> the index
  \<^verbatim>\<open>numBytes - 2\<close> wraps around and the read is outside the message; a count beyond the
  buffer reads outside it too. Both are \<open>None\<close>.
\<close>

definition Matrix_IsMessageChecksumValid :: "8 word list \<Rightarrow> nat \<Rightarrow> bool option" where
  "Matrix_IsMessageChecksumValid bytes numBytes =
     (if numBytes = 0 then Some False
      else if numBytes < 2 \<or> length bytes < numBytes then None
      else
        let messageCrc = (ucast (bytes ! (numBytes - 2)) :: 16 word);
            messageCrc' = push_bit 8 messageCrc OR ucast (bytes ! (numBytes - 1))
        in Some (messageCrc' = Matrix_ComputeCRC16 (take (numBytes - 2) bytes)))"

section \<open>CAN address object (matrix\_can\_address.h)\<close>

record MATRIX_CAN_ADDRESS_OBJECT =
  xorIndex :: "16 word"
  addressOffset :: "16 word"
  requestTime :: "32 word"
  proposedAddress :: "8 word"
  file_address :: "8 word"
  file_isStatic :: "8 word"

definition Matrix_GetCanAddress :: "MATRIX_CAN_ADDRESS_OBJECT \<Rightarrow> 8 word" where
  "Matrix_GetCanAddress a = file_address a"

definition Matrix_IsCanAddressValid :: "MATRIX_CAN_ADDRESS_OBJECT \<Rightarrow> bool" where
  "Matrix_IsCanAddressValid a =
     ((file_address a \<ge> 1 \<and> file_address a \<le> 120) \<or> file_isStatic a \<noteq> 0)"

section \<open>Transmitter (matrix\_transmitter.c)\<close>

text \<open>
  The frame identifier \<^verbatim>\<open>ECCONET_CAN_FRAME_ID\<close> (the bit-field variant) is kept as a
  record of its fields, each with the width of its bit field. A queued frame
  \<^verbatim>\<open>MATRIX_TX_CAN_FRAME\<close> is kept as the identifier fields that \<^verbatim>\<open>SendFrame\<close> packs into
  \<^verbatim>\<open>frame->id\<close> and the \<^verbatim>\<open>dataSize\<close> bytes it copies; the packing into one 32-bit word
  is not modelled bit by bit.
\<close>

record ECCONET_CAN_FRAME_ID =
  id_destinationAddress :: "7 word"
  id_isEvent :: bool
  id_sourceAddress :: "7 word"
  id_frameType :: "5 word"

abbreviation (input) MATRIX_MESSAGE_FRAME_TYPE_SINGLE :: "5 word" where
  "MATRIX_MESSAGE_FRAME_TYPE_SINGLE \<equiv> 0x1C"
abbreviation (input) MATRIX_MESSAGE_FRAME_TYPE_BODY :: "5 word" where
  "MATRIX_MESSAGE_FRAME_TYPE_BODY \<equiv> 0x1D"
abbreviation (input) MATRIX_MESSAGE_FRAME_TYPE_LAST :: "5 word" where
  "MATRIX_MESSAGE_FRAME_TYPE_LAST \<equiv> 0x1E"

record MATRIX_TX_CAN_FRAME =
  tx_id :: ECCONET_CAN_FRAME_ID
  tx_frameIndex :: "16 word"
  tx_data :: "8 word list"

text \<open>
  The transmitter object. \<open>fifo\<close> holds the first \<^verbatim>\<open>fifoIndex\<close> bytes of the C array
  (\<^verbatim>\<open>fifoIndex\<close> is its length). \<open>streamBuffer\<close> is the ring of
  \<^verbatim>\<open>CAN_TX_STREAM_BUFFER_SIZE = 40\<close> frames; \<open>enqueued\<close> is a history of the frames
  written to the ring, in order, which the C code does not keep.
\<close>

record MATRIX_TRANSMITTER =
  idAddress :: ECCONET_CAN_FRAME_ID
  fifo :: "8 word list"
  numBytesSent :: "16 word"
  crc :: "16 word"
  frameIndex :: "16 word"
  streamBuffer :: "MATRIX_TX_CAN_FRAME list"
  streamBufferWriteIndex :: "16 word"
  streamBufferReadIndex :: "16 word"
  enqueued :: "MATRIX_TX_CAN_FRAME list"

definition SendFrame :: "MATRIX_TRANSMITTER \<Rightarrow> int \<times> MATRIX_TRANSMITTER" where
  "SendFrame t =
     (let dataSize = (if length (fifo t) \<le> 8 then length (fifo t) else 8) in
      if dataSize = 0 then (-1, t)
      else
        let w = (if streamBufferWriteIndex t \<ge> 40 then 0 else streamBufferWriteIndex t);
            frame = \<lparr>tx_id = idAddress t, tx_frameIndex = frameIndex t,
                     tx_data = take dataSize (fifo t)\<rparr>
        in (0, t\<lparr>streamBuffer := (streamBuffer t)[unat w := frame],
                 streamBufferWriteIndex := w + 1,
                 enqueued := enqueued t @ [frame],
                 numBytesSent := numBytesSent t + of_nat dataSize,
                 frameIndex := (frameIndex t + 1) AND 0x1F,
                 fifo := drop dataSize (fifo t)\<rparr>))"

definition MatrixTransmitter_AddByte :: "8 word \<Rightarrow> MATRIX_TRANSMITTER \<Rightarrow> MATRIX_TRANSMITTER" where
  "MatrixTransmitter_AddByte byte t =
     (let t1 = t\<lparr>crc := Matrix_AddByteToCRC16 byte (crc t), fifo := fifo t @ [byte]\<rparr>
      in if 16 \<le> length (fifo t1) then snd (SendFrame t1) else t1)"

definition MatrixTransmitter_AddBytes :: "8 word list \<Rightarrow> MATRIX_TRANSMITTER \<Rightarrow> MATRIX_TRANSMITTER" where
  "MatrixTransmitter_AddBytes bs t = foldl (\<lambda>t b. MatrixTransmitter_AddByte b t) t bs"

definition MatrixTransmitter_AddToken :: "TOKEN \<Rightarrow> MATRIX_TRANSMITTER \<Rightarrow> MATRIX_TRANSMITTER" where
  "MatrixTransmitter_AddToken token t =
     (let t1 = MatrixTransmitter_AddByte (ucast (drop_bit 8 (key token))) t;
          t2 = MatrixTransmitter_AddByte (ucast (key token)) t1;
          valueSize = (if KeyPrefix_PatternSync = Key_GetPrefix (key token) then 1
                       else Key_ValueSize (key token))
      in MatrixTransmitter_AddBytes (value_bytes valueSize (val token)) t2)"

text \<open>
  \<open>MatrixTransmitter_StartMessageWithAddressAndKey\<close> reads the device address and
  the event index, so it takes both; \<open>Matrix_GetEventIndex\<close> may change the event index.
\<close>

definition MatrixTransmitter_StartMessageWithAddressAndKey ::
  "8 word \<Rightarrow> 16 word \<Rightarrow> MATRIX_CAN_ADDRESS_OBJECT \<Rightarrow>
   MATRIX_EVENT_INDEX_OBJECT \<times> MATRIX_TRANSMITTER \<Rightarrow> MATRIX_EVENT_INDEX_OBJECT \<times> MATRIX_TRANSMITTER" where
  "MatrixTransmitter_StartMessageWithAddressAndKey destinationAddress k ca et =
     (let (e, t) = et;
          t1 = t\<lparr>fifo := [], crc := 0, numBytesSent := 0,
                 idAddress := \<lparr>id_destinationAddress = ucast destinationAddress,
                               id_isEvent = False,
                               id_sourceAddress = ucast (Matrix_GetCanAddress ca),
                               id_frameType = MATRIX_MESSAGE_FRAME_TYPE_BODY\<rparr>\<rparr>
      in if k = KeyRequestAddress \<or> k = KeyResponseAddressInUse
         then (e, MatrixTransmitter_AddByte 0 t1)
         else if KeyPrefix_InputStatus = Key_GetPrefix k \<or> KeyPrefix_OutputStatus = Key_GetPrefix k
         then (let t2 = t1\<lparr>idAddress := (idAddress t1)\<lparr>id_isEvent := True\<rparr>\<rparr>;
                   (b, e') = Matrix_GetEventIndex e
               in (e', MatrixTransmitter_AddByte b t2))
         else (let (b, e') = Matrix_GetEventIndex e
               in (e', MatrixTransmitter_AddByte b t1)))"

definition MatrixTransmitter_StartMessage ::
  "8 word \<Rightarrow> MATRIX_CAN_ADDRESS_OBJECT \<Rightarrow>
   MATRIX_EVENT_INDEX_OBJECT \<times> MATRIX_TRANSMITTER \<Rightarrow> MATRIX_EVENT_INDEX_OBJECT \<times> MATRIX_TRANSMITTER" where
  "MatrixTransmitter_StartMessage destinationAddress ca et =
     MatrixTransmitter_StartMessageWithAddressAndKey destinationAddress KeyNull ca et"

text \<open>The loop \<^verbatim>\<open>while (0 != fifoIndex)\<close> of \<open>MatrixTransmitter_FinishMessage\<close>.\<close>

function FinishMessage_loop :: "bool \<Rightarrow> MATRIX_TRANSMITTER \<Rightarrow> int \<times> MATRIX_TRANSMITTER" where
  "FinishMessage_loop isSingleFrame t =
     (if length (fifo t) = 0 then (0, t)
      else
        let numBytesToSend = (if length (fifo t) \<le> 8 then length (fifo t) else 8);
            t1 = (if length (fifo t) = numBytesToSend
                  then t\<lparr>idAddress := (idAddress t)\<lparr>id_frameType :=
                          (if isSingleFrame then MATRIX_MESSAGE_FRAME_TYPE_SINGLE
                           else MATRIX_MESSAGE_FRAME_TYPE_LAST)\<rparr>\<rparr>
                  else t);
            (status, t2) = SendFrame t1
        in if status \<noteq> 0 then (status, t2) else FinishMessage_loop isSingleFrame t2)"
  by pat_completeness auto
termination
  by (relation "measure (\<lambda>(b, t). length (fifo t))")
     (auto simp: SendFrame_def Let_def split: if_splits)

definition MatrixTransmitter_FinishMessage :: "MATRIX_TRANSMITTER \<Rightarrow> int \<times> MATRIX_TRANSMITTER" where
  "MatrixTransmitter_FinishMessage t =
     (let isSingleFrame = (8 \<ge> unat (numBytesSent t) + length (fifo t));
          t1 = (if \<not> isSingleFrame
                then (let c = crc t;
                          ta = MatrixTransmitter_AddByte (ucast (drop_bit 8 c)) t
                      in MatrixTransmitter_AddByte (ucast c) ta)
                else t)
      in FinishMessage_loop isSingleFrame t1)"

section \<open>Coordinator state and the token send path (matrix.c)\<close>

text \<open>
  The global objects the send path touches, gathered in one record: the \<^verbatim>\<open>Matrix\<close>
  object's times, the event index, the CAN address object and the transmitter.
\<close>

record MATRIX =
  systemTime :: "32 word"
  nextStatusTime :: "32 word"
  EventIndex :: MATRIX_EVENT_INDEX_OBJECT
  CanAddress :: MATRIX_CAN_ADDRESS_OBJECT
  Transmitter :: MATRIX_TRANSMITTER

definition IsMatrixTimerExpired :: "MATRIX \<Rightarrow> 32 word \<Rightarrow> bool" where
  "IsMatrixTimerExpired m x = (0 \<le> sint (systemTime m - x))"

definition Matrix_DelayStatusUpdate15mS :: "MATRIX \<Rightarrow> MATRIX" where
  "Matrix_DelayStatusUpdate15mS m =
     (if 15 > sint (nextStatusTime m - systemTime m)
      then m\<lparr>nextStatusTime := nextStatusTime m + 15\<rparr> else m)"

text \<open>The body of the \<^verbatim>\<open>for\<close> loop of \<open>Matrix_PrivateSendCanToken\<close>: one message.\<close>

definition SendCanToken_message :: "TOKEN \<Rightarrow> MATRIX \<Rightarrow> MATRIX" where
  "SendCanToken_message token m =
     (let (e, t) = MatrixTransmitter_StartMessageWithAddressAndKey (address token) (key token)
                     (CanAddress m) (EventIndex m, Transmitter m);
          t1 = MatrixTransmitter_AddToken token t;
          (status, t2) = MatrixTransmitter_FinishMessage t1
      in m\<lparr>EventIndex := e, Transmitter := t2\<rparr>)"

definition Matrix_PrivateSendCanToken :: "TOKEN \<Rightarrow> MATRIX \<Rightarrow> int \<times> MATRIX" where
  "Matrix_PrivateSendCanToken token m =
     (if \<not> Matrix_IsCanAddressValid (CanAddress m) \<and> key token \<noteq> KeyRequestAddress
      then (-1, m)
      else
        let isInputEvent = (KeyPrefix_InputStatus = Key_GetPrefix (key token));
            m1 = (if isInputEvent
                  then Matrix_DelayStatusUpdate15mS
                         (m\<lparr>EventIndex := Matrix_NextEventIndex (EventIndex m)\<rparr>)
                  else m)
        in (0, (SendCanToken_message token ^^ (if isInputEvent then 3 else 1)) m1))"

section \<open>CAN address negotiation (matrix\_can\_address.c)\<close>

text \<open>
  The 128-bit GUID is four 32-bit words; the generator reads its sixteen bytes through
  a byte pointer.
\<close>

type_synonym guid = "32 word \<times> 32 word \<times> 32 word \<times> 32 word"

definition word_bytes :: "32 word \<Rightarrow> 8 word list" where
  "word_bytes w = [ucast w, ucast (drop_bit 8 w), ucast (drop_bit 16 w), ucast (drop_bit 24 w)]"

definition guid_bytes :: "guid \<Rightarrow> 8 word list" where
  "guid_bytes g = (case g of (g0, g1, g2, g3) \<Rightarrow>
     word_bytes g0 @ word_bytes g1 @ word_bytes g2 @ word_bytes g3)"

datatype address_error = ShiftCountOutOfRange

text \<open>
  One pass of the \<^verbatim>\<open>do ... while\<close> body, in three parts: the rotated exclusive-or
  value, the candidate address, and the advance of the generator state.
\<close>

definition xorValue_of :: "16 word \<Rightarrow> 32 word" where
  "xorValue_of xi =
     drop_bit (unat xi) (0x64 :: 32 word) OR (push_bit (7 - unat xi) (0x64 :: 32 word) AND 0x7F)"

definition candidate_address :: "guid \<Rightarrow> MATRIX_CAN_ADDRESS_OBJECT \<Rightarrow> 32 word" where
  "candidate_address g a =
     (foldl (\<lambda>acc b. acc + (ucast b XOR xorValue_of (xorIndex a))) 0 (guid_bytes g)
      + ucast (addressOffset a)) AND 0x7F"

definition advance_generator :: "MATRIX_CAN_ADDRESS_OBJECT \<Rightarrow> MATRIX_CAN_ADDRESS_OBJECT" where
  "advance_generator a =
     (let a1 = a\<lparr>xorIndex := xorIndex a + 1\<rparr>
      in if xorIndex a1 \<ge> 7
         then a1\<lparr>xorIndex := 0, addressOffset := (addressOffset a1 + 1) AND 0x7F\<rparr>
         else a1)"

text \<open>
  With \<open>xorIndex > 7\<close> the count \<^verbatim>\<open>numBits - xorIndex\<close> wraps around in unsigned
  arithmetic and the shift is undefined in C: that is the error value.
\<close>

definition propose_step ::
  "guid \<Rightarrow> MATRIX_CAN_ADDRESS_OBJECT \<Rightarrow> address_error + 32 word \<times> MATRIX_CAN_ADDRESS_OBJECT" where
  "propose_step g a =
     (if unat (xorIndex a) > 7 then Inl ShiftCountOutOfRange
      else Inr (candidate_address g a, advance_generator a))"

partial_function (option) propose_loop ::
  "guid \<Rightarrow> MATRIX_CAN_ADDRESS_OBJECT \<Rightarrow> (address_error + 8 word \<times> MATRIX_CAN_ADDRESS_OBJECT) option" where
  "propose_loop g a =
     (case propose_step g a of
        Inl e \<Rightarrow> Some (Inl e)
      | Inr (addr, a') \<Rightarrow>
          if addr = 0 \<or> addr > 120 then propose_loop g a' else Some (Inr (ucast addr, a')))"

definition MatrixCanAddress_GetNextProposedCanAddress ::
  "guid \<Rightarrow> MATRIX_CAN_ADDRESS_OBJECT \<Rightarrow> (address_error + 8 word \<times> MATRIX_CAN_ADDRESS_OBJECT) option" where
  "MatrixCanAddress_GetNextProposedCanAddress g a = propose_loop g a"

definition MatrixCanAddress_Clock :: "guid \<Rightarrow> MATRIX \<Rightarrow> (address_error + MATRIX) option" where
  "MatrixCanAddress_Clock g m =
     (if \<not> Matrix_IsCanAddressValid (CanAddress m) then
        (if proposedAddress (CanAddress m) = 0 then
           (case MatrixCanAddress_GetNextProposedCanAddress g (CanAddress m) of
              None \<Rightarrow> None
            | Some (Inl e) \<Rightarrow> Some (Inl e)
            | Some (Inr (p, a')) \<Rightarrow>
                let m1 = m\<lparr>CanAddress := a'\<lparr>proposedAddress := p\<rparr>\<rparr>;
                    token = \<lparr>flags = 0, address = 0, key = KeyRequestAddress, val = ucast p\<rparr>;
                    (status, m2) = Matrix_PrivateSendCanToken token m1
                in Some (Inr (m2\<lparr>CanAddress := (CanAddress m2)\<lparr>requestTime := systemTime m2 + 100\<rparr>\<rparr>)))
         else if IsMatrixTimerExpired m (requestTime (CanAddress m)) then
           (let a1 = (CanAddress m)\<lparr>file_address := proposedAddress (CanAddress m),
                                     proposedAddress := 0\<rparr>;
                m1 = m\<lparr>CanAddress := a1\<rparr>;
                token = \<lparr>flags = 0, address = 0, key = KeyResponseAddressInUse,
                         val = ucast (file_address a1)\<rparr>;
                (status, m2) = Matrix_PrivateSendCanToken token m1
            in Some (Inr (m2\<lparr>nextStatusTime := systemTime m2 + 1200\<rparr>)))
         else Some (Inr m))
      else Some (Inr m))"

definition MatrixCanAddress_CanTokenIn :: "TOKEN \<Rightarrow> MATRIX \<Rightarrow> MATRIX" where
  "MatrixCanAddress_CanTokenIn token m =
     (let a = CanAddress m in
      if (key token = KeyResponseAddressInUse \<and> sint (val token) = uint (proposedAddress a))
         \<or> (0 \<noteq> file_address a \<and> file_address a = address token \<and> file_isStatic a = 0)
      then m\<lparr>CanAddress := a\<lparr>file_address := 0, proposedAddress := 0\<rparr>\<rparr>
      else if key token = KeyRequestAddress \<and> sint (val token) = uint (file_address a)
      then snd (Matrix_PrivateSendCanToken
                  (token\<lparr>key := KeyResponseAddressInUse, val := ucast (file_address a), address := 0\<rparr>) m)
      else m)"

text \<open>
  What the generation loop is expected to deliver from a generator state: a result, with
  an address from 1 to 120, and a state whose \<open>xorIndex\<close> is again below 7.
\<close>

definition proposes_ok :: "guid \<Rightarrow> MATRIX_CAN_ADDRESS_OBJECT \<Rightarrow> bool" where
  "proposes_ok g a = (\<exists>p a'. propose_loop g a = Some (Inr (p, a')) \<and> 1 \<le> p \<and> p \<le> 120
      \<and> xorIndex a' < 7)"

section \<open>States for evaluating the model\<close>

text \<open>
  The global objects as C's static initialisation leaves them (every field zero, the
  transmit ring holding forty empty frames). The concrete evaluations below start
  from these.
\<close>

definition zeroed_TRANSMITTER :: MATRIX_TRANSMITTER where
  "zeroed_TRANSMITTER =
     \<lparr>idAddress = \<lparr>id_destinationAddress = 0, id_isEvent = False, id_sourceAddress = 0,
                    id_frameType = 0\<rparr>,
      fifo = [], numBytesSent = 0, crc = 0, frameIndex = 0,
      streamBuffer = replicate 40
        \<lparr>tx_id = \<lparr>id_destinationAddress = 0, id_isEvent = False, id_sourceAddress = 0,
                    id_frameType = 0\<rparr>, tx_frameIndex = 0, tx_data = []\<rparr>,
      streamBufferWriteIndex = 0, streamBufferReadIndex = 0, enqueued = []\<rparr>"

definition zeroed_CAN_ADDRESS :: MATRIX_CAN_ADDRESS_OBJECT where
  "zeroed_CAN_ADDRESS =
     \<lparr>xorIndex = 0, addressOffset = 0, requestTime = 0, proposedAddress = 0,
      file_address = 0, file_isStatic = 0\<rparr>"

definition zeroed_MATRIX :: MATRIX where
  "zeroed_MATRIX =
     \<lparr>systemTime = 0, nextStatusTime = 0, EventIndex = \<lparr>eventIndex = 0\<rparr>,
      CanAddress = zeroed_CAN_ADDRESS, Transmitter = zeroed_TRANSMITTER\<rparr>"

text \<open>A node that has proposed the candidate address \<open>c\<close> and not yet adopted it.\<close>

definition proposing_MATRIX :: "8 word \<Rightarrow> MATRIX" where
  "proposing_MATRIX c = zeroed_MATRIX\<lparr>CanAddress := zeroed_CAN_ADDRESS\<lparr>proposedAddress := c\<rparr>\<rparr>"

text \<open>
  A node with address 5 and event index 5, at an empty ring, sends the input-status
  token with key 1000 and value 1, and the output-status token with the same key and
  value.
\<close>

definition sending_MATRIX :: MATRIX where
  "sending_MATRIX = zeroed_MATRIX\<lparr>EventIndex := \<lparr>eventIndex = 5\<rparr>,
      CanAddress := zeroed_CAN_ADDRESS\<lparr>file_address := 5\<rparr>\<rparr>"

section \<open>The framing the specification describes (spec 4.5)\<close>

text \<open>
  Spec 4.5, \<open>finishMessage()\<close>, in the spec's words: the message bytes are drained into
  frames of up to eight bytes, the first frames typed BODY and the final one typed LAST,
  or a single SINGLE frame; the frame index increments by 1 mod 32 per frame. This
  definition follows the specification, not the code; the theorems compare the code with it.
\<close>

function spec_message_frames ::
  "ECCONET_CAN_FRAME_ID \<Rightarrow> 5 word \<Rightarrow> 16 word \<Rightarrow> 8 word list \<Rightarrow> MATRIX_TX_CAN_FRAME list" where
  "spec_message_frames idA finalType fi bytes =
     (if length bytes \<le> 8
      then [\<lparr>tx_id = idA\<lparr>id_frameType := finalType\<rparr>, tx_frameIndex = fi, tx_data = bytes\<rparr>]
      else \<lparr>tx_id = idA\<lparr>id_frameType := MATRIX_MESSAGE_FRAME_TYPE_BODY\<rparr>, tx_frameIndex = fi,
             tx_data = take 8 bytes\<rparr>
           # spec_message_frames idA finalType ((fi + 1) AND 0x1F) (drop 8 bytes))"
  by pat_completeness auto
termination
  by (relation "measure (\<lambda>(idA, ty, fi, bytes). length bytes)") auto

text \<open>
  The parts of \<open>MatrixTransmitter_StartMessageWithAddressAndKey\<close> named on their own:
  the identifier it builds and the first byte it adds.
\<close>

definition start_idAddress :: "8 word \<Rightarrow> 16 word \<Rightarrow> MATRIX_CAN_ADDRESS_OBJECT \<Rightarrow> ECCONET_CAN_FRAME_ID" where
  "start_idAddress destinationAddress k ca =
     \<lparr>id_destinationAddress = ucast destinationAddress,
      id_isEvent = (k \<noteq> KeyRequestAddress \<and> k \<noteq> KeyResponseAddressInUse \<and>
                    (KeyPrefix_InputStatus = Key_GetPrefix k \<or> KeyPrefix_OutputStatus = Key_GetPrefix k)),
      id_sourceAddress = ucast (Matrix_GetCanAddress ca),
      id_frameType = MATRIX_MESSAGE_FRAME_TYPE_BODY\<rparr>"

definition start_byte :: "16 word \<Rightarrow> MATRIX_EVENT_INDEX_OBJECT \<Rightarrow> 8 word" where
  "start_byte k e =
     (if k = KeyRequestAddress \<or> k = KeyResponseAddressInUse then 0
      else fst (Matrix_GetEventIndex e))"

definition start_event :: "16 word \<Rightarrow> MATRIX_EVENT_INDEX_OBJECT \<Rightarrow> MATRIX_EVENT_INDEX_OBJECT" where
  "start_event k e =
     (if k = KeyRequestAddress \<or> k = KeyResponseAddressInUse then e
      else snd (Matrix_GetEventIndex e))"

text \<open>The two checksum bytes \<open>MatrixTransmitter_FinishMessage\<close> appends, high byte first.\<close>

definition crc_suffix :: "16 word \<Rightarrow> 8 word list" where
  "crc_suffix c = [ucast (drop_bit 8 c), ucast c]"

text \<open>The bytes \<open>MatrixTransmitter_AddToken\<close> adds for a token.\<close>

definition token_bytes :: "TOKEN \<Rightarrow> 8 word list" where
  "token_bytes token =
     ucast (drop_bit 8 (key token)) # ucast (key token) #
     value_bytes (if KeyPrefix_PatternSync = Key_GetPrefix (key token) then 1
                  else Key_ValueSize (key token)) (val token)"

text \<open>The number of bytes waiting in the fifo after \<open>n\<close> bytes were added to an empty one.\<close>

definition fifo_level :: "nat \<Rightarrow> nat" where
  "fifo_level n = (if n < 16 then n else 8 + n mod 8)"

text \<open>
  The transmitter as \<open>MatrixTransmitter_StartMessageWithAddressAndKey\<close> leaves it before
  it adds the first byte.
\<close>

definition start_init ::
  "8 word \<Rightarrow> 16 word \<Rightarrow> MATRIX_CAN_ADDRESS_OBJECT \<Rightarrow> MATRIX_TRANSMITTER \<Rightarrow> MATRIX_TRANSMITTER" where
  "start_init destinationAddress k ca t =
     t\<lparr>fifo := [], crc := 0, numBytesSent := 0,
       idAddress := start_idAddress destinationAddress k ca\<rparr>"

text \<open>
  The frame of a one-token message: the identifier \<open>start_idAddress\<close> builds, typed
  SINGLE, with the payload event-index byte, key and value bytes.
\<close>

definition token_message_frame ::
  "TOKEN \<Rightarrow> MATRIX_CAN_ADDRESS_OBJECT \<Rightarrow> MATRIX_EVENT_INDEX_OBJECT \<Rightarrow> 16 word \<Rightarrow> MATRIX_TX_CAN_FRAME" where
  "token_message_frame token ca e fi =
     \<lparr>tx_id = (start_idAddress (address token) (key token) ca)
                \<lparr>id_frameType := MATRIX_MESSAGE_FRAME_TYPE_SINGLE\<rparr>,
      tx_frameIndex = fi,
      tx_data = start_byte (key token) e # token_bytes token\<rparr>"

section \<open>Pattern sequencer: incoming sync tokens (matrix\_token\_sequencer.c)\<close>

text \<open>
  Pointers into the pattern file are addresses into flash memory, \<open>None\<close> for
  \<^verbatim>\<open>NULL\<close>; flash memory is a function from addresses to bytes, as the code reads it
  without bounds checks.
\<close>

record MATRIX_TOKEN_PATTERN =
  patternPosition :: "nat option"
  firstStepPosition :: "nat option"
  currentPosition :: "nat option"
  repeatedSectionPosition :: "nat option"
  patternCounter :: "8 word"
  repeatedSectionCounter :: "8 word"

record MATRIX_TOKEN_SEQUENCER =
  outputIntensity :: "16 word"
  patternStackIndex :: "16 word"
  stepTime :: "32 word"
  patternStack :: "MATRIX_TOKEN_PATTERN list"
  syncRangeBottom :: "16 word"
  syncRangeTop :: "16 word"
  commonKey :: "16 word"
  syncEnable :: "16 word"

record MATRIX_TOKEN_SEQUENCER_CONTROLLER =
  Sequencers :: "MATRIX_TOKEN_SEQUENCER list"

abbreviation (input) SYNC_RANGE_NONE :: "16 word" where "SYNC_RANGE_NONE \<equiv> 0"
abbreviation (input) SYNC_RANGE_EXACT :: "16 word" where "SYNC_RANGE_EXACT \<equiv> 8192"
abbreviation (input) MTS_NUM_TOKEN_SEQUENCERS :: nat where "MTS_NUM_TOKEN_SEQUENCERS \<equiv> 6"
abbreviation (input) MATRIX_TOKEN_SEQUENCER_0_NETWORK_ADDRESS :: nat where
  "MATRIX_TOKEN_SEQUENCER_0_NETWORK_ADDRESS \<equiv> 133"

text \<open>\<open>patternStackIndex\<close> is an \<^verbatim>\<open>int16_t\<close>; a sequencer runs when it is not negative.\<close>

definition sequencer_running :: "MATRIX_TOKEN_SEQUENCER \<Rightarrow> bool" where
  "sequencer_running ts = (0 \<le> sint (patternStackIndex ts))"

definition GetRootPatternEnum :: "(nat \<Rightarrow> 8 word) \<Rightarrow> MATRIX_TOKEN_SEQUENCER \<Rightarrow> 16 word" where
  "GetRootPatternEnum flash ts =
     (if 0 > sint (patternStackIndex ts) then 0
      else case patternPosition (patternStack ts ! 0) of
             None \<Rightarrow> 0
           | Some p \<Rightarrow> push_bit 8 (ucast (flash (p + 1) AND NOT 0xE0)) OR ucast (flash (p + 2)))"

text \<open>
  The three assignments that restart the root pattern of sequencer \<open>i\<close>
  (lines 254 to 256 of the source).
\<close>

definition restart_root ::
  "32 word \<Rightarrow> nat \<Rightarrow> MATRIX_TOKEN_SEQUENCER_CONTROLLER \<Rightarrow> MATRIX_TOKEN_SEQUENCER_CONTROLLER" where
  "restart_root now i ctl =
     (let ts = Sequencers ctl ! i;
          root = patternStack ts ! 0
      in ctl\<lparr>Sequencers := (Sequencers ctl)
               [i := ts\<lparr>patternStackIndex := 0,
                        patternStack := (patternStack ts)
                           [0 := root\<lparr>currentPosition := firstStepPosition root\<rparr>],
                        stepTime := now\<rparr>]\<rparr>)"

text \<open>
  The test of lines 250 and 251: the stripped enumeration \<open>v\<close> (an \<^verbatim>\<open>int32_t\<close>) lies in
  the sync range, or the range bottom is \<open>SYNC_RANGE_EXACT\<close> and \<open>v\<close> is the running root
  pattern.
\<close>

definition sync_matches :: "(nat \<Rightarrow> 8 word) \<Rightarrow> 32 word \<Rightarrow> MATRIX_TOKEN_SEQUENCER \<Rightarrow> bool" where
  "sync_matches flash v ts =
     ((sint v \<ge> uint (syncRangeBottom ts) \<and> sint v \<le> uint (syncRangeTop ts))
      \<or> (SYNC_RANGE_EXACT = syncRangeBottom ts \<and> sint v = uint (GetRootPatternEnum flash ts)))"

text \<open>
  The body of the loop over the sequencers in the case \<open>KeyTokenSequencerSync\<close>.
  \<open>NextStep\<close> plays the next pattern step (it reads the pattern file, sends tokens and
  may start nested patterns); it is a parameter here, applied where the code calls it.
\<close>

definition sync_sequencer ::
  "(nat \<Rightarrow> MATRIX_TOKEN_SEQUENCER_CONTROLLER \<Rightarrow> MATRIX_TOKEN_SEQUENCER_CONTROLLER) \<Rightarrow>
   (nat \<Rightarrow> 8 word) \<Rightarrow> 32 word \<Rightarrow> TOKEN \<Rightarrow> 32 word \<Rightarrow> nat \<Rightarrow>
   MATRIX_TOKEN_SEQUENCER_CONTROLLER \<Rightarrow> MATRIX_TOKEN_SEQUENCER_CONTROLLER" where
  "sync_sequencer NextStep flash now token v sequencerIndex ctl =
     (let ts = Sequencers ctl ! sequencerIndex in
      if sequencer_running ts
         \<and> MATRIX_TOKEN_SEQUENCER_0_NETWORK_ADDRESS + sequencerIndex > unat (address token)
      then (if SYNC_RANGE_NONE \<noteq> syncRangeTop ts
            then (if sync_matches flash v ts
                  then NextStep sequencerIndex (restart_root now sequencerIndex ctl)
                  else ctl)
            else ctl)
      else ctl)"

text \<open>
  \<open>MatrixTokenSequencerController_TokenIn\<close>. \<open>own\<close> is \<open>Matrix_GetCanAddress()\<close>, \<open>now\<close> is
  \<^verbatim>\<open>Matrix.systemTime\<close>. The cases that start, stop and dim patterns (the indexed sequencer
  keys, \<open>KeyIndexedTokenSequencerWithPattern\<close>, \<open>KeyTokenSequencerPattern\<close>,
  \<open>KeyTokenSequencerIntensity\<close>) call \<open>Start\<close> and \<open>Stop\<close>; they are the parameter
  \<open>otherCases\<close>.
\<close>

definition MatrixTokenSequencerController_TokenIn ::
  "(nat \<Rightarrow> MATRIX_TOKEN_SEQUENCER_CONTROLLER \<Rightarrow> MATRIX_TOKEN_SEQUENCER_CONTROLLER) \<Rightarrow>
   (TOKEN \<Rightarrow> MATRIX_TOKEN_SEQUENCER_CONTROLLER \<Rightarrow> MATRIX_TOKEN_SEQUENCER_CONTROLLER) \<Rightarrow>
   (nat \<Rightarrow> 8 word) \<Rightarrow> 8 word \<Rightarrow> 32 word \<Rightarrow> TOKEN \<Rightarrow>
   MATRIX_TOKEN_SEQUENCER_CONTROLLER \<Rightarrow> MATRIX_TOKEN_SEQUENCER_CONTROLLER" where
  "MatrixTokenSequencerController_TokenIn NextStep otherCases flash own now token ctl =
     (let k = Key_WithoutPrefix (key token) in
      if 8150 \<le> k \<and> 8150 + 10 > k then otherCases token ctl
      else if k = KeyTokenSequencerSyncRange then
        (let sequencerIndex = (ucast (address token) - 133 :: 16 word) in
         if 6 \<le> sequencerIndex then ctl
         else ctl\<lparr>Sequencers := (Sequencers ctl)
                [unat sequencerIndex := (Sequencers ctl ! unat sequencerIndex)
                   \<lparr>syncRangeBottom := ucast (val token AND 0xFFFF),
                    syncRangeTop := ucast (drop_bit 16 (val token))\<rparr>]\<rparr>)
      else if k = KeyTokenSequencerSync then
        (if address token \<le> own then ctl
         else fold (sync_sequencer NextStep flash now token (val token AND NOT 0xE000))
                [0 ..< MTS_NUM_TOKEN_SEQUENCERS] ctl)
      else otherCases token ctl)"

text \<open>
  The scenario of the specification's S6: a node whose sequencer 0 runs root pattern 1030
  (the pattern header at flash address 6, the enumeration bytes \<open>0x04 0x06\<close> after it)
  with sync range Exact, three steps into the pattern; the other sequencers are stopped.
\<close>

definition s6_flash :: "nat \<Rightarrow> 8 word" where
  "s6_flash a = (if a = 6 then 0xA0 else if a = 7 then 0x04 else if a = 8 then 0x06 else 0)"

definition s6_pattern :: MATRIX_TOKEN_PATTERN where
  "s6_pattern = \<lparr>patternPosition = Some 6, firstStepPosition = Some 9, currentPosition = Some 30,
      repeatedSectionPosition = None, patternCounter = 0, repeatedSectionCounter = 0\<rparr>"

definition s6_running :: MATRIX_TOKEN_SEQUENCER where
  "s6_running = \<lparr>outputIntensity = 100, patternStackIndex = 0, stepTime = 5000,
      patternStack = [s6_pattern, s6_pattern, s6_pattern],
      syncRangeBottom = SYNC_RANGE_EXACT, syncRangeTop = SYNC_RANGE_EXACT,
      commonKey = 0, syncEnable = 1\<rparr>"

definition s6_stopped :: MATRIX_TOKEN_SEQUENCER where
  "s6_stopped = s6_running\<lparr>patternStackIndex := -1\<rparr>"

definition s6_controller :: MATRIX_TOKEN_SEQUENCER_CONTROLLER where
  "s6_controller = \<lparr>Sequencers = [s6_running, s6_stopped, s6_stopped, s6_stopped, s6_stopped,
      s6_stopped]\<rparr>"

section \<open>Receiver: message assembly and dispatch (matrix\_receiver.c)\<close>

datatype MR_FRAME_FLAGS =
  MR_FRAME_FLAG_NONE | MR_FRAME_FLAG_SINGLE | MR_FRAME_FLAG_BODY | MR_FRAME_FLAG_LAST

text \<open>
  A frame of the receiver's stream buffer. \<open>rx_data\<close> is the eight-byte data array,
  \<open>dataSize\<close> the number of bytes received into it (at most eight).
\<close>

record MATRIX_RX_CAN_FRAME =
  senderAddress :: "32 word"
  rx_frameIndex :: "32 word"
  frameFlags :: MR_FRAME_FLAGS
  isEvent :: bool
  dataSize :: nat
  timeStamp :: "32 word"
  rx_data :: "8 word list"

text \<open>
  The inner loop of \<open>ProcessMessagesInStream\<close> (lines 194 to 226): it walks the frames
  from \<^verbatim>\<open>messageFrame\<close> to the end of the buffer and returns \<^verbatim>\<open>numMessageFrames\<close>,
  \<^verbatim>\<open>numMessageBytes\<close>, the number of frames \<^verbatim>\<open>nextMessageFrame\<close> has advanced, and
  \<^verbatim>\<open>isCompleteMessage\<close>. The two counters are \<^verbatim>\<open>uint16_t\<close> in C; the buffer holds 72
  frames of at most eight bytes, so they do not wrap and are natural numbers here.
\<close>

fun GetNextMessage ::
  "32 word \<Rightarrow> 32 word \<Rightarrow> nat \<Rightarrow> nat \<Rightarrow> MATRIX_RX_CAN_FRAME list \<Rightarrow> nat \<times> nat \<times> nat \<times> bool" where
  "GetNextMessage sender frameIdx numMessageFrames numMessageBytes [] =
     (numMessageFrames, numMessageBytes, 0, False)"
| "GetNextMessage sender frameIdx numMessageFrames numMessageBytes (f # fs) =
     (if frameIdx \<noteq> rx_frameIndex f \<or> senderAddress f \<noteq> sender
      then (numMessageFrames, numMessageBytes, 0, False)
      else if frameFlags f = MR_FRAME_FLAG_SINGLE
      then (1, dataSize f, 1, True)
      else if frameFlags f = MR_FRAME_FLAG_LAST
      then (numMessageFrames + 1, numMessageBytes + dataSize f, 1, numMessageFrames + 1 > 1)
      else (case GetNextMessage sender ((frameIdx + 1) AND 0x1F) (numMessageFrames + 1)
                   (numMessageBytes + dataSize f) fs of
              (nf, nb, advanced, complete) \<Rightarrow> (nf, nb, advanced + 1, complete)))"

text \<open>
  The memory at \<^verbatim>\<open>messageFrame->data\<close> after the concatenation loop (lines 232 to 235):
  the eight-byte data arrays of the frames up to \<^verbatim>\<open>nextMessageFrame\<close>, one after another.
\<close>

definition message_memory :: "nat \<Rightarrow> MATRIX_RX_CAN_FRAME list \<Rightarrow> 8 word list" where
  "message_memory advanced frames = concat (map rx_data (take advanced frames))"

text \<open>Where a complete message goes.\<close>

datatype dispatch =
    NotDispatched
  | ReadOutsideMessage
  | ToReceiveCanToken TOKEN
  | ToFTPClient "8 word" "16 word" "8 word list"
  | ToFTPServer "8 word" "16 word" "8 word list"
  | ToDecompress "8 word list" "8 word"

text \<open>
  Lines 237 to 297 for a complete message: the checksum test, the removal of the
  checksum from the length, and the dispatch by key. \<open>bytes\<close> is the memory at
  \<^verbatim>\<open>messageFrame->data\<close>.
\<close>

definition DispatchMessage ::
  "MATRIX \<Rightarrow> MATRIX_RX_CAN_FRAME \<Rightarrow> nat \<Rightarrow> nat \<Rightarrow> 8 word list \<Rightarrow> dispatch \<times> MATRIX" where
  "DispatchMessage m messageFrame numMessageFrames numMessageBytes bytes =
     (case (if numMessageFrames = 1 then Some True
            else Matrix_IsMessageChecksumValid bytes numMessageBytes) of
        None \<Rightarrow> (ReadOutsideMessage, m)
      | Some False \<Rightarrow> (NotDispatched, m)
      | Some True \<Rightarrow>
          let n = (if 8 < numMessageBytes then numMessageBytes - 2 else numMessageBytes) in
          if 3 \<le> n then
            let k = (push_bit 8 (ucast (bytes ! 1 AND NOT 0xE0)) OR ucast (bytes ! 2) :: 16 word) in
            if KeyPrefix_PatternSync = (bytes ! 1 AND KeyPrefix_Mask)
            then (ToReceiveCanToken \<lparr>flags = 0, address = ucast (senderAddress messageFrame),
                     key = KeyTokenSequencerSync, val = ucast k\<rparr>, m)
            else if Key_IsFtpResponse k
            then (ToFTPClient (ucast (senderAddress messageFrame)) k (take (n - 3) (drop 3 bytes)), m)
            else if Key_IsFtpRequest k
            then (ToFTPServer (ucast (senderAddress messageFrame)) k (take (n - 3) (drop 3 bytes)), m)
            else
              let m1 = m\<lparr>EventIndex := Matrix_NewEventIndex (bytes ! 0) (EventIndex m)\<rparr>;
                  m2 = (if isEvent messageFrame then Matrix_DelayStatusUpdate15mS m1 else m1);
                  isCommand = (0 = (bytes ! 1 AND KeyPrefix_Mask) \<and> n = 3 + Key_ValueSize k)
              in if isEvent messageFrame \<or> isCommand
                    \<or> \<not> Matrix_IsEventIndexExpired (bytes ! 0) (EventIndex m2)
                 then (ToDecompress (take (n - 1) (drop 1 bytes))
                         (ucast (senderAddress messageFrame)), m2)
                 else (NotDispatched, m2)
          else (NotDispatched, m))"

text \<open>
  One pass of the outer loop at a used frame: find the next message, and dispatch it
  when it is complete.
\<close>

definition ProcessMessageAt :: "MATRIX \<Rightarrow> MATRIX_RX_CAN_FRAME list \<Rightarrow> dispatch \<times> MATRIX" where
  "ProcessMessageAt m frames =
     (case frames of
        [] \<Rightarrow> (NotDispatched, m)
      | messageFrame # rest \<Rightarrow>
          (case GetNextMessage (senderAddress messageFrame) (rx_frameIndex messageFrame) 0 0 frames of
             (numMessageFrames, numMessageBytes, advanced, isCompleteMessage) \<Rightarrow>
               if isCompleteMessage
               then DispatchMessage m messageFrame numMessageFrames numMessageBytes
                      (message_memory advanced frames)
               else (NotDispatched, m)))"

definition delivers :: "dispatch \<Rightarrow> bool" where
  "delivers d = (case d of NotDispatched \<Rightarrow> False | ReadOutsideMessage \<Rightarrow> False | _ \<Rightarrow> True)"

text \<open>
  The checksum relation of a byte stream of \<open>n\<close> bytes: the last two bytes, high byte
  first, are the CRC-16 of the bytes before them.
\<close>

definition crc_matches :: "8 word list \<Rightarrow> nat \<Rightarrow> bool" where
  "crc_matches bytes n =
     (2 \<le> n \<and> n \<le> length bytes \<and>
      (push_bit 8 (ucast (bytes ! (n - 2))) OR ucast (bytes ! (n - 1)) :: 16 word)
        = Matrix_ComputeCRC16 (take (n - 2) bytes))"

text \<open>
  A two-frame message from sender 9 for the concrete evaluations: ten message bytes and
  the checksum \<open>0xEBCA\<close>, in a BODY frame with index 4 and a LAST frame with index 5.
\<close>

definition example_body_frame :: MATRIX_RX_CAN_FRAME where
  "example_body_frame = \<lparr>senderAddress = 9, rx_frameIndex = 4, frameFlags = MR_FRAME_FLAG_BODY,
      isEvent = True, dataSize = 8, timeStamp = 0,
      rx_data = [0x01, 0x23, 0xE8, 0x64, 0x23, 0xEA, 0x32, 0x27]\<rparr>"

definition example_last_frame :: MATRIX_RX_CAN_FRAME where
  "example_last_frame = \<lparr>senderAddress = 9, rx_frameIndex = 5, frameFlags = MR_FRAME_FLAG_LAST,
      isEvent = True, dataSize = 4, timeStamp = 0,
      rx_data = [0xD0, 0x01, 0xEB, 0xCA, 0, 0, 0, 0]\<rparr>"

text \<open>
  A SINGLE frame from the same sender with index 5, four bytes long: it is in sequence
  after the BODY frame above, and the twelve bytes of the two frames do not end in
  their checksum.
\<close>

definition example_single_frame :: MATRIX_RX_CAN_FRAME where
  "example_single_frame = \<lparr>senderAddress = 9, rx_frameIndex = 5, frameFlags = MR_FRAME_FLAG_SINGLE,
      isEvent = True, dataSize = 4, timeStamp = 0,
      rx_data = [0xD0, 0x01, 0x00, 0x00, 0, 0, 0, 0]\<rparr>"

text \<open>
  The bytes received in the first \<open>advanced\<close> frames: of each frame the \<^verbatim>\<open>dataSize\<close>
  bytes that came over the bus.
\<close>

definition received_bytes :: "nat \<Rightarrow> MATRIX_RX_CAN_FRAME list \<Rightarrow> 8 word list" where
  "received_bytes advanced frames =
     concat (map (\<lambda>f. take (dataSize f) (rx_data f)) (take advanced frames))"

section \<open>Token codec (matrix\_codec.c)\<close>

text \<open>
  The time-logic token of \<^verbatim>\<open>matrix_time_logic.h\<close>: a token with its timestamp and the
  key it is mapped to. The C field \<^verbatim>\<open>token\<close> is \<open>mtl_token\<close> here.
\<close>

record MTL_TOKEN =
  mtl_token :: TOKEN
  timestamp :: "16 word"
  mappedTokenKey :: "16 word"

abbreviation (input) MtlFlagsIsEquationOutput :: "8 word" where "MtlFlagsIsEquationOutput \<equiv> 0x04"
abbreviation (input) MtlFlagsShouldBroadcast :: "8 word" where "MtlFlagsShouldBroadcast \<equiv> 0x08"
abbreviation (input) MtlFlagsTokenReceived :: "8 word" where "MtlFlagsTokenReceived \<equiv> 0x10"

definition should_broadcast :: "MTL_TOKEN \<Rightarrow> bool" where
  "should_broadcast t = (flags (mtl_token t) AND MtlFlagsShouldBroadcast \<noteq> 0)"

text \<open>
  A token pointer is the list of the tokens from the pointer to \<^verbatim>\<open>lastToken\<close>. The loop
  \<^verbatim>\<open>do ++p; while ((p < lastToken) && !(p->token.flags & MtlFlagsShouldBroadcast));\<close>
  steps once and then over every token not flagged for broadcast.
\<close>

definition next_status_token :: "MTL_TOKEN list \<Rightarrow> MTL_TOKEN list" where
  "next_status_token p = dropWhile (\<lambda>t. \<not> should_broadcast t) (tl p)"

definition OutputTokenKey :: "16 word \<Rightarrow> 8 word list" where
  "OutputTokenKey k = [ucast (drop_bit 8 k), ucast k]"

definition OutputToken :: "MTL_TOKEN \<Rightarrow> 8 word list" where
  "OutputToken t =
     [ucast (drop_bit 8 (key (mtl_token t))), ucast (key (mtl_token t))]
       @ value_bytes (Key_ValueSize (key (mtl_token t))) (val (mtl_token t))"

text \<open>
  The search for a compressible series (lines 97 to 123). \<^verbatim>\<open>key\<close> is a \<^verbatim>\<open>uint32_t\<close>
  that starts one above a 16-bit key and grows by at most 31, and the two counters
  stay below 64: they are natural numbers here. The result is \<^verbatim>\<open>numAnalogRepeats\<close>,
  \<^verbatim>\<open>numBinaryRepeats\<close> and \<^verbatim>\<open>value\<close> at the end of the loop.
\<close>

function series_scan ::
  "nat \<Rightarrow> nat \<Rightarrow> nat \<Rightarrow> 32 word \<Rightarrow> nat \<Rightarrow> MTL_TOKEN list \<Rightarrow> nat \<times> nat \<times> 32 word" where
  "series_scan valueSize numAnalogRepeats numBinaryRepeats value k compareToken =
     (if numAnalogRepeats < 32 - 1 then
        (case next_status_token compareToken of
           [] \<Rightarrow> (numAnalogRepeats, numBinaryRepeats, value)
         | c # cs \<Rightarrow>
             if unat (key (mtl_token c)) \<noteq> k \<or> Key_ValueSize (key (mtl_token c)) \<noteq> valueSize
             then (numAnalogRepeats, numBinaryRepeats, value)
             else
               let value' = (if value = 0 \<and> val (mtl_token c) \<noteq> 0 then val (mtl_token c) else value);
                   numBinaryRepeats' =
                     (if val (mtl_token c) = 0 \<or> val (mtl_token c) = value'
                      then numBinaryRepeats + 1 else 32)
               in series_scan valueSize (numAnalogRepeats + 1) numBinaryRepeats' value' (k + 1)
                    (c # cs))
      else (numAnalogRepeats, numBinaryRepeats, value))"
  by pat_completeness auto
termination
  by (relation "measure (\<lambda>(valueSize, numAnalogRepeats, r). 31 - numAnalogRepeats)") auto

text \<open>
  The bitmap loop of a binary series (lines 134 to 154): \<open>n\<close> tokens are visited,
  a bit is set for each non-zero value, and a byte is sent when eight bits are in it.
  The result is the bytes sent, \<^verbatim>\<open>bit\<close>, \<^verbatim>\<open>byte\<close> and the token pointer after the loop;
  \<open>None\<close> is a read at or past \<^verbatim>\<open>lastToken\<close>.
\<close>

fun binary_bits ::
  "nat \<Rightarrow> nat \<Rightarrow> 8 word \<Rightarrow> MTL_TOKEN list
     \<Rightarrow> (8 word list \<times> nat \<times> 8 word \<times> MTL_TOKEN list) option" where
  "binary_bits 0 bitn byte p = Some ([], bitn, byte, p)"
| "binary_bits (Suc n) bitn byte [] = None"
| "binary_bits (Suc n) bitn byte (t # ts) =
     (let byte' = (if val (mtl_token t) \<noteq> 0 then byte OR push_bit bitn 1 else byte) in
      if bitn + 1 \<ge> 8
      then (case binary_bits n 0 0 (next_status_token (t # ts)) of
              None \<Rightarrow> None
            | Some (out, r) \<Rightarrow> Some (byte' # out, r))
      else binary_bits n (bitn + 1) byte' (next_status_token (t # ts)))"

text \<open>The value loop of an analog series (lines 168 to 177).\<close>

fun analog_values ::
  "nat \<Rightarrow> nat \<Rightarrow> MTL_TOKEN list \<Rightarrow> (8 word list \<times> MTL_TOKEN list) option" where
  "analog_values 0 valueSize p = Some ([], p)"
| "analog_values (Suc n) valueSize [] = None"
| "analog_values (Suc n) valueSize (t # ts) =
     (case analog_values n valueSize (next_status_token (t # ts)) of
        None \<Rightarrow> None
      | Some (out, r) \<Rightarrow> Some (value_bytes valueSize (val (mtl_token t)) @ out, r))"

text \<open>
  The series found at a token, and what is sent for it together with the token pointer
  afterwards (lines 87 to 188 for a token that is flagged for broadcast).
\<close>

definition compress_token ::
  "MTL_TOKEN \<Rightarrow> MTL_TOKEN list \<Rightarrow> (8 word list \<times> MTL_TOKEN list) option" where
  "compress_token t ts =
     (let valueSize = Key_ValueSize (key (mtl_token t)) in
      if valueSize = 0 then Some (OutputToken t, ts)
      else
        (case series_scan valueSize 0 0 (val (mtl_token t)) (unat (key (mtl_token t)) + 1) (t # ts) of
           (numAnalogRepeats, numBinaryRepeats, value) \<Rightarrow>
             if numBinaryRepeats \<noteq> 0 \<and> numBinaryRepeats < 32
             then
               (case binary_bits (numBinaryRepeats + 1) 0 0 (t # ts) of
                  None \<Rightarrow> None
                | Some (out, bitn, byte, p) \<Rightarrow>
                    Some ([of_nat numBinaryRepeats OR KeyPrefix_BinaryRepeat]
                            @ OutputTokenKey (key (mtl_token t))
                            @ value_bytes valueSize value
                            @ out @ (if bitn \<noteq> 0 then [byte] else []), p))
             else if numAnalogRepeats \<noteq> 0
             then
               (case analog_values numAnalogRepeats valueSize (next_status_token (t # ts)) of
                  None \<Rightarrow> None
                | Some (out, p) \<Rightarrow>
                    Some ([of_nat numAnalogRepeats OR KeyPrefix_AnalogRepeat]
                            @ OutputToken t @ out, p))
             else Some (OutputToken t, ts)))"

text \<open>
  The token loop of \<open>MatrixCodec_Compress\<close> (lines 76 to 190): the bytes given to the
  byte sink from the token pointer to the end of the array.
\<close>

function compress_loop :: "MTL_TOKEN list \<Rightarrow> 8 word list option" where
  "compress_loop [] = Some []"
| "compress_loop (t # ts) =
     (if \<not> should_broadcast t then compress_loop ts
      else
        (case compress_token t ts of
           None \<Rightarrow> None
         | Some (out, p) \<Rightarrow>
             (case compress_loop p of
                None \<Rightarrow> None
              | Some later \<Rightarrow> Some (out @ later))))"
  by pat_completeness auto


text \<open>
  \<open>MatrixCodec_Compress\<close> on the token array (\<^verbatim>\<open>numTokens\<close> is its length, a
  \<^verbatim>\<open>uint16_t\<close>) with the bytes given to the byte sink collected in a list. The result
  is the return value and the bytes; the byte sink is taken not to be \<^verbatim>\<open>NULL\<close>.
\<close>

definition MatrixCodec_Compress :: "MTL_TOKEN list \<Rightarrow> (int \<times> 8 word list) option" where
  "MatrixCodec_Compress tokens =
     (if tokens = [] then Some (-1, [])
      else map_option (\<lambda>bytes. (0, bytes)) (compress_loop tokens))"

text \<open>
  The decompressor reads from the byte pointer up to \<^verbatim>\<open>lastByte\<close>; a byte pointer is
  the list of the bytes from the pointer to \<^verbatim>\<open>lastByte\<close>, and \<^verbatim>\<open>CheckStreamPointer\<close>
  fails on the empty list. \<open>read_value\<close> is the loop that shifts \<open>n\<close> bytes into a
  value.
\<close>

fun read_value :: "nat \<Rightarrow> 32 word \<Rightarrow> 8 word list \<Rightarrow> (32 word \<times> 8 word list) option" where
  "read_value 0 v bytes = Some (v, bytes)"
| "read_value (Suc n) v [] = None"
| "read_value (Suc n) v (b # bytes) = read_value n (push_bit 8 v OR ucast b) bytes"

text \<open>
  The tokens of an analog series (lines 250 to 269) and of a binary series (lines 272
  to 305): the tokens given to the token sink, and the byte pointer after the loop, or
  \<open>None\<close> when \<^verbatim>\<open>CheckStreamPointer\<close> fails. The \<^verbatim>\<open>flags\<close> field of the local \<^verbatim>\<open>token\<close>
  is never assigned; \<open>f\<close> stands for what it holds. \<^verbatim>\<open>bitIndex\<close> stays between 0 and
  9 and is a natural number here.
\<close>

fun analog_series ::
  "nat \<Rightarrow> nat \<Rightarrow> 16 word \<Rightarrow> 8 word \<Rightarrow> 8 word \<Rightarrow> 8 word list
     \<Rightarrow> TOKEN list \<times> 8 word list option" where
  "analog_series 0 valueSize k a f bytes = ([], Some bytes)"
| "analog_series (Suc numRepeats) valueSize k a f bytes =
     (case read_value valueSize 0 bytes of
        None \<Rightarrow> ([], None)
      | Some (v, bytes') \<Rightarrow>
          (case analog_series numRepeats valueSize (k + 1) a f bytes' of
             (toks, r) \<Rightarrow> (\<lparr>flags = f, address = a, key = k, val = v\<rparr> # toks, r)))"

fun binary_series ::
  "nat \<Rightarrow> nat \<Rightarrow> 16 word \<Rightarrow> 32 word \<Rightarrow> 16 word \<Rightarrow> 8 word \<Rightarrow> 8 word \<Rightarrow> 8 word list
     \<Rightarrow> TOKEN list \<times> 8 word list option" where
  "binary_series 0 bitIndex bitFlags v k a f bytes = ([], Some bytes)"
| "binary_series (Suc numRepeats) bitIndex bitFlags v k a f bytes =
     (if bitIndex + 1 \<ge> 8
      then (case bytes of
              [] \<Rightarrow> ([], None)
            | b # bytes' \<Rightarrow>
                (case binary_series numRepeats 0 (ucast b) v (k + 1) a f bytes' of
                   (toks, r) \<Rightarrow>
                     (\<lparr>flags = f, address = a, key = k,
                        val = (if (ucast b :: 16 word) AND 1 \<noteq> 0 then v else 0)\<rparr> # toks, r)))
      else (case binary_series numRepeats (bitIndex + 1) (drop_bit 1 bitFlags) v (k + 1) a f bytes of
              (toks, r) \<Rightarrow>
                (\<lparr>flags = f, address = a, key = k,
                   val = (if drop_bit 1 bitFlags AND 1 \<noteq> 0 then v else 0)\<rparr> # toks, r)))"

text \<open>
  One pass of the byte loop of \<open>MatrixCodec_Decompress\<close> (lines 230 to 327) at a byte
  pointer that is below \<^verbatim>\<open>lastByte\<close>: \<open>Inl rc\<close> when the function returns \<open>rc\<close> in this
  pass, else the byte pointer for the next pass; in both cases with the tokens given
  to the sink. \<^verbatim>\<open>numRepeats\<close> is assigned in every pass that reads it.
\<close>

definition decompress_token ::
  "8 word \<Rightarrow> 8 word \<Rightarrow> 8 word \<Rightarrow> 8 word list \<Rightarrow> TOKEN list \<times> (int + 8 word list)" where
  "decompress_token a f b bytes =
     (let tokenType = b AND KeyPrefix_Mask in
      if KeyPrefix_AnalogRepeat < tokenType then ([], Inl 0)
      else
        let isRepeat = (KeyPrefix_BinaryRepeat = tokenType \<or> KeyPrefix_AnalogRepeat = tokenType);
            numRepeats = unat (b AND (32 - 1)) + 1;
            bytes1 = (if isRepeat then bytes else b # bytes)
        in case bytes1 of
             [] \<Rightarrow> ([], Inl (-1))
           | k1 # bytes2 \<Rightarrow>
               (case bytes2 of
                  [] \<Rightarrow> ([], Inl (-1))
                | k2 # bytes3 \<Rightarrow>
                    let k = (push_bit 8 (ucast k1) OR ucast k2 :: 16 word);
                        valueSize = Key_ValueSize k
                    in if tokenType = KeyPrefix_AnalogRepeat
                       then (case analog_series numRepeats valueSize k a f bytes3 of
                               (toks, None) \<Rightarrow> (toks, Inl (-1))
                             | (toks, Some r) \<Rightarrow> (toks, Inr r))
                       else if tokenType = KeyPrefix_BinaryRepeat
                       then (case read_value valueSize 0 bytes3 of
                               None \<Rightarrow> ([], Inl (-1))
                             | Some (v, bytes4) \<Rightarrow>
                                 (case binary_series numRepeats 8 0 v k a f bytes4 of
                                    (toks, None) \<Rightarrow> (toks, Inl (-1))
                                  | (toks, Some r) \<Rightarrow> (toks, Inr r)))
                       else (case read_value valueSize 0 bytes3 of
                               None \<Rightarrow> ([], Inl (-1))
                             | Some (v, r) \<Rightarrow>
                                 ([\<lparr>flags = f, address = a, key = k, val = v\<rparr>], Inr r))))"

function decompress_loop :: "8 word \<Rightarrow> 8 word \<Rightarrow> 8 word list \<Rightarrow> int \<times> TOKEN list" where
  "decompress_loop a f [] = (0, [])"
| "decompress_loop a f (b # bytes) =
     (case decompress_token a f b bytes of
        (toks, Inl rc) \<Rightarrow> (rc, toks)
      | (toks, Inr r) \<Rightarrow>
          (case decompress_loop a f r of (rc, later) \<Rightarrow> (rc, toks @ later)))"
  by pat_completeness auto


text \<open>
  \<open>MatrixCodec_Decompress\<close> on the memory at \<^verbatim>\<open>*byte\<close>, with \<^verbatim>\<open>numBytes\<close>, the sender's
  address and the content of the unassigned \<^verbatim>\<open>flags\<close> field: the return value and the
  tokens given to the token sink. The byte pointer and the token sink are taken not to be
  \<^verbatim>\<open>NULL\<close>.
\<close>

definition MatrixCodec_Decompress ::
  "8 word list \<Rightarrow> 16 word \<Rightarrow> 8 word \<Rightarrow> 8 word \<Rightarrow> int \<times> TOKEN list" where
  "MatrixCodec_Decompress bytes numBytes a f =
     (if numBytes = 0 then (-1, [])
      else decompress_loop a f (take (unat numBytes) bytes))"

text \<open>
  For stating what the loops do: the \<open>n\<close> tokens a pointer visits when it is advanced
  with \<open>next_status_token\<close>, the pointer after \<open>n\<close> such steps, and the token the
  decompressor gives the sink for a token sent with a value of \<open>valueSize\<close> bytes.
\<close>

fun visit :: "nat \<Rightarrow> MTL_TOKEN list \<Rightarrow> MTL_TOKEN list" where
  "visit 0 p = []"
| "visit (Suc n) [] = []"
| "visit (Suc n) (t # ts) = t # visit n (next_status_token (t # ts))"

fun advance :: "nat \<Rightarrow> MTL_TOKEN list \<Rightarrow> MTL_TOKEN list" where
  "advance 0 p = p"
| "advance (Suc n) p = advance n (next_status_token p)"

definition received :: "8 word \<Rightarrow> 8 word \<Rightarrow> MTL_TOKEN \<Rightarrow> TOKEN" where
  "received a f t =
     \<lparr>flags = f, address = a, key = key (mtl_token t),
      val = take_bit (8 * Key_ValueSize (key (mtl_token t))) (val (mtl_token t))\<rparr>"

text \<open>
  Two token arrays for the concrete evaluations: one with a binary series, an analog
  series, a token that is not flagged and a key without value; and one whose only token
  holds a value wider than the one byte of its key.
\<close>

definition example_table :: "MTL_TOKEN list" where
  "example_table =
     [\<lparr>mtl_token = \<lparr>flags = 0x08, address = 0, key = 0x23E8, val = 5\<rparr>, timestamp = 0, mappedTokenKey = 0\<rparr>,
      \<lparr>mtl_token = \<lparr>flags = 0x00, address = 0, key = 0x23E9, val = 7\<rparr>, timestamp = 0, mappedTokenKey = 0\<rparr>,
      \<lparr>mtl_token = \<lparr>flags = 0x08, address = 0, key = 0x23E9, val = 0\<rparr>, timestamp = 0, mappedTokenKey = 0\<rparr>,
      \<lparr>mtl_token = \<lparr>flags = 0x0C, address = 0, key = 0x23EA, val = 5\<rparr>, timestamp = 0, mappedTokenKey = 0\<rparr>,
      \<lparr>mtl_token = \<lparr>flags = 0x08, address = 0, key = 0x33E8, val = 0x1234\<rparr>, timestamp = 0, mappedTokenKey = 0\<rparr>,
      \<lparr>mtl_token = \<lparr>flags = 0x08, address = 0, key = 0x33E9, val = 0x0102\<rparr>, timestamp = 0, mappedTokenKey = 0\<rparr>,
      \<lparr>mtl_token = \<lparr>flags = 0x08, address = 0, key = 0x5F40, val = 0\<rparr>, timestamp = 0, mappedTokenKey = 0\<rparr>]"

definition overwide_table :: "MTL_TOKEN list" where
  "overwide_table =
     [\<lparr>mtl_token = \<lparr>flags = 0x08, address = 0, key = 0x23E8, val = 0x100\<rparr>, timestamp = 0, mappedTokenKey = 0\<rparr>]"

section \<open>Token emission paths (matrix.c, matrix\_time\_logic\_outputs.c, matrix\_time\_logic\_tokens.c)\<close>

text \<open>
  \<open>Matrix_SendSync\<close> (matrix.c, lines 190 to 208): a message to the broadcast address
  that holds, after the event index, the pattern enumeration of \<^verbatim>\<open>token->value\<close> under
  the prefix \<open>KeyPrefix_PatternSync\<close>.
\<close>

definition Matrix_SendSync :: "TOKEN \<Rightarrow> MATRIX \<Rightarrow> int \<times> MATRIX" where
  "Matrix_SendSync token m =
     (let (e, t) = MatrixTransmitter_StartMessage 0 (CanAddress m) (EventIndex m, Transmitter m);
          t1 = MatrixTransmitter_AddByte
                 (KeyPrefix_PatternSync
                    OR (ucast (drop_bit 8 (val token)) AND NOT KeyPrefix_PatternSync)) t;
          t2 = MatrixTransmitter_AddByte (ucast (val token)) t1
      in (0, m\<lparr>EventIndex := e, Transmitter := snd (MatrixTransmitter_FinishMessage t2)\<rparr>))"

text \<open>
  What \<open>MatrixTokenSequencerController_TokenIn\<close> does to the objects of the record
  \<open>MATRIX\<close>. The function strips the key prefix and has a branch for the ten indexed
  sequencer keys from \<open>KeyIndexedSequencer = 8150\<close> and \<^verbatim>\<open>case\<close> labels for
  \<open>KeyTokenSequencerSyncRange = 7007\<close>, \<open>KeyTokenSequencerSync = 5001\<close>,
  \<open>KeyIndexedTokenSequencerWithPattern = 7000\<close>, \<open>KeyTokenSequencerPattern = 5000\<close> and
  \<open>KeyTokenSequencerIntensity = 3003\<close>; for every other key it ends at
  \<^verbatim>\<open>default: break;\<close>. The branches start, stop and step patterns. Their tokens go to the
  application callback; the one call into the transmitter is \<open>Matrix_SendSync\<close> in
  \<open>NextStep\<close> (line 683), for a root pattern that restarts with sync enabled. Which
  patterns restart depends on the pattern file and on the sequencers: \<open>syncs token\<close> are
  the tokens handed to \<open>Matrix_SendSync\<close> while the branch runs, in order.
\<close>

definition sequencer_has_case :: "16 word \<Rightarrow> bool" where
  "sequencer_has_case k =
     (let k' = Key_WithoutPrefix k in
      (8150 \<le> k' \<and> 8150 + 10 > k')
      \<or> k' = KeyTokenSequencerSyncRange \<or> k' = KeyTokenSequencerSync
      \<or> k' = 7000 \<or> k' = 5000 \<or> k' = 3003)"

definition SequencerTokenIn_on_MATRIX ::
  "(TOKEN \<Rightarrow> TOKEN list) \<Rightarrow> TOKEN \<Rightarrow> MATRIX \<Rightarrow> MATRIX" where
  "SequencerTokenIn_on_MATRIX syncs token m =
     (if sequencer_has_case (key token)
      then fold (\<lambda>s m. snd (Matrix_SendSync s m)) (syncs token) m
      else m)"

text \<open>
  \<open>Matrix_TokenIn\<close> (matrix.c, lines 124 to 139), the host's token entry. Address 132
  is the equation processor: \<open>MatrixTimeLogic_TokenIn\<close> writes the token table and calls
  the application, and leaves the objects of \<open>MATRIX\<close> as they are. Addresses 133 to 138
  are the sequencers.
\<close>

definition Matrix_TokenIn ::
  "(TOKEN \<Rightarrow> TOKEN list) \<Rightarrow> TOKEN \<Rightarrow> MATRIX \<Rightarrow> MATRIX" where
  "Matrix_TokenIn syncs token m =
     (if 132 = address token then m
      else if 133 \<le> address token \<and> 138 \<ge> address token
      then SequencerTokenIn_on_MATRIX syncs token m
      else if 128 > address token \<and> \<not> Key_IsLocalVariable (key token)
              \<and> Matrix_IsCanAddressValid (CanAddress m)
      then snd (Matrix_PrivateSendCanToken token m)
      else m)"

text \<open>
  \<open>SendToken\<close> of matrix\_time\_logic\_outputs.c (lines 339 to 359), which emits an
  equation output: to the sequencer, then to the CAN bus with the broadcast address 0 if
  the key is public, then to the application (which does not touch \<open>MATRIX\<close>).
\<close>

definition SendToken ::
  "(TOKEN \<Rightarrow> TOKEN list) \<Rightarrow> TOKEN \<Rightarrow> MATRIX \<Rightarrow> MATRIX" where
  "SendToken syncs token m =
     (let m1 = SequencerTokenIn_on_MATRIX syncs token m in
      if \<not> Key_IsLocalVariable (key token)
      then snd (Matrix_PrivateSendCanToken (token\<lparr>address := 0\<rparr>) m1)
      else m1)"

text \<open>
  The frames enqueued between two states, and the key a one-token message carries in
  bytes 1 and 2 of its frame.
\<close>

definition new_frames :: "MATRIX \<Rightarrow> MATRIX \<Rightarrow> MATRIX_TX_CAN_FRAME list" where
  "new_frames m m' = drop (length (enqueued (Transmitter m))) (enqueued (Transmitter m'))"

definition frame_key :: "MATRIX_TX_CAN_FRAME \<Rightarrow> 16 word" where
  "frame_key f = push_bit 8 (ucast (tx_data f ! 1)) OR ucast (tx_data f ! 2)"

text \<open>
  The token table. \<open>MTL_PopulateTokenTable\<close> clears it, then for every token key of the
  bytecode finds or appends the table entry (lines 140 to 156) and, when the token is
  the result of an equation, marks the entry (lines 159 to 177).
\<close>

definition new_table_token :: "16 word \<Rightarrow> 8 word \<Rightarrow> MTL_TOKEN" where
  "new_table_token k a =
     \<lparr>mtl_token = \<lparr>flags = 0, address = a, key = k, val = 0\<rparr>, timestamp = 0, mappedTokenKey = 0\<rparr>"

definition mark_equation_result :: "16 word \<Rightarrow> MTL_TOKEN \<Rightarrow> MTL_TOKEN" where
  "mark_equation_result mapped tableToken =
     (let t1 = tableToken\<lparr>mtl_token := (mtl_token tableToken)
                 \<lparr>flags := flags (mtl_token tableToken) OR MtlFlagsIsEquationOutput\<rparr>\<rparr>;
          t2 = (if \<not> Key_IsLocalVariable (key (mtl_token t1))
                   \<and> (Key_IsInputStatus (key (mtl_token t1)) \<or> Key_IsOutputStatus (key (mtl_token t1)))
                then t1\<lparr>mtl_token := (mtl_token t1)
                        \<lparr>flags := flags (mtl_token t1) OR MtlFlagsShouldBroadcast\<rparr>\<rparr>
                else t1)
      in if KeyNull \<noteq> mapped then t2\<lparr>mappedTokenKey := mapped\<rparr> else t2)"

text \<open>
  The tables the core can hold. Every write to a table entry in the sources is one of
  the rules: the cleared table; a new entry with key and address (at most
  \<^verbatim>\<open>MATRIX_TIME_LOGIC_TOKEN_TABLE_SIZE = 50\<close> entries); the mark of an equation result; the
  sort at the end of \<open>MTL_PopulateTokenTable\<close>, which moves whole entries (the table
  after it has the entries of the table before it, and as many); a new value or
  timestamp (the calculator, the outputs and \<open>MatrixTimeLogic_TokenIn\<close>); and the flag
  writes of matrix\_time\_logic.c and matrix\_time\_logic\_outputs.c, which set or clear
  \<^verbatim>\<open>MtlFlagsInputBitstate = 0x01\<close>, \<^verbatim>\<open>MtlFlagsSkipToggle = 0x02\<close> or
  \<^verbatim>\<open>MtlFlagsTokenReceived = 0x10\<close>, or clear all flags
  (\<^verbatim>\<open>flags &= !MtlFlagsTokenReceived\<close>, line 118 of the outputs).
\<close>

inductive table_reachable :: "MTL_TOKEN list \<Rightarrow> bool" where
  cleared: "table_reachable []"
| entry: "table_reachable T \<Longrightarrow> length T < 50 \<Longrightarrow> table_reachable (T @ [new_table_token k a])"
| mark: "table_reachable T \<Longrightarrow> i < length T \<Longrightarrow>
     table_reachable (T[i := mark_equation_result mapped (T ! i)])"
| sorted: "table_reachable T \<Longrightarrow> set T' = set T \<Longrightarrow> length T' = length T \<Longrightarrow> table_reachable T'"
| written: "table_reachable T \<Longrightarrow> i < length T \<Longrightarrow>
     table_reachable (T[i := (T ! i)\<lparr>mtl_token := (mtl_token (T ! i))\<lparr>val := v\<rparr>, timestamp := ts\<rparr>])"
| flag_set: "table_reachable T \<Longrightarrow> i < length T \<Longrightarrow> b = 0x01 \<or> b = 0x02 \<or> b = 0x10 \<Longrightarrow>
     table_reachable (T[i := (T ! i)\<lparr>mtl_token := (mtl_token (T ! i))
        \<lparr>flags := flags (mtl_token (T ! i)) OR b\<rparr>\<rparr>])"
| flag_cleared: "table_reachable T \<Longrightarrow> i < length T \<Longrightarrow> b = 0x01 \<or> b = 0x02 \<or> b = 0x10 \<Longrightarrow>
     table_reachable (T[i := (T ! i)\<lparr>mtl_token := (mtl_token (T ! i))
        \<lparr>flags := flags (mtl_token (T ! i)) AND NOT b\<rparr>\<rparr>])"
| flags_cleared: "table_reachable T \<Longrightarrow> i < length T \<Longrightarrow>
     table_reachable (T[i := (T ! i)\<lparr>mtl_token := (mtl_token (T ! i))\<lparr>flags := 0\<rparr>\<rparr>])"

text \<open>
  The status block of \<open>Matrix_Clock\<close> (matrix.c, lines 96 to 113), the periodic beacon:
  \<open>table\<close> is the token table with its \<^verbatim>\<open>numTokens\<close> entries, \<open>senderAddressFilter\<close> the
  receiver's filter. The bytes \<open>MatrixCodec_Compress\<close> gives its byte sink
  \<open>MatrixTransmitter_AddByte\<close> are added in order. \<open>None\<close> is a read past the table.
\<close>

definition Matrix_Clock_status :: "MTL_TOKEN list \<Rightarrow> 8 word \<Rightarrow> MATRIX \<Rightarrow> MATRIX option" where
  "Matrix_Clock_status table senderAddressFilter m =
     (if IsMatrixTimerExpired m (nextStatusTime m) \<and> 0 = senderAddressFilter
         \<and> Matrix_IsCanAddressValid (CanAddress m)
      then
        (let m1 = m\<lparr>nextStatusTime := nextStatusTime m
                       + (ucast (Matrix_GetCanAddress (CanAddress m)) + (1000 - 60))\<rparr>;
             (e, t) = MatrixTransmitter_StartMessage 0 (CanAddress m1) (EventIndex m1, Transmitter m1)
         in case MatrixCodec_Compress table of
              None \<Rightarrow> None
            | Some (rc, bytes) \<Rightarrow>
                Some (m1\<lparr>EventIndex := e,
                         Transmitter := snd (MatrixTransmitter_FinishMessage
                                               (MatrixTransmitter_AddBytes bytes t))\<rparr>))
      else Some m)"

text \<open>
  A table for the concrete evaluations: the entry of a public output-status key, marked
  as an equation result, and the entry of a local variable, marked as well.
\<close>

definition beacon_table :: "MTL_TOKEN list" where
  "beacon_table =
     [mark_equation_result 0 (new_table_token 0x23E8 0),
      mark_equation_result 0 (new_table_token 0x2064 0)]"

section \<open>Properties of the event index\<close>

lemma index_result_self: "index_result r (s\<lparr>eventIndex := ucast r\<rparr>) = 0"
  by (simp add: index_result_def ucast_up_ucast_id is_up)

text \<open>
  C6, as amended. A zero remote index is ignored by \<open>Matrix_NewEventIndex\<close>, so the
  property holds for every non-zero remote index \<open>r\<close> and every local state: after
  the call, \<open>(int8)(r - local)\<close> is not positive.
\<close>

theorem C6_observe_not_older:
  "r \<noteq> 0 \<Longrightarrow> index_result r (Matrix_NewEventIndex r s) \<le> 0"
  by (simp add: Matrix_NewEventIndex_def index_result_self)

theorem C6_observe_not_older_witness:
  "(5 :: 8 word) \<noteq> 0 \<and> index_result 5 (Matrix_NewEventIndex 5 \<lparr>eventIndex = 200\<rparr>) \<le> 0"
  using C6_observe_not_older [of 5 "\<lparr>eventIndex = 200\<rparr>"] by simp

text \<open>
  C6 as stated fails at remote index 0 with local index 200: the call leaves the local
  index at 200 and \<open>(int8)(0 - 200) = 56\<close>.
\<close>

theorem C6_counterexample:
  "Matrix_NewEventIndex 0 \<lparr>eventIndex = 200\<rparr> = \<lparr>eventIndex = 200\<rparr> \<and>
   index_result 0 (Matrix_NewEventIndex 0 \<lparr>eventIndex = 200\<rparr>) = 56"
  by (simp add: Matrix_NewEventIndex_def index_result_def)

text \<open>
  C7, as amended. \<open>Matrix_IsEventIndexExpired\<close> answers true exactly when the remote
  index is not zero and \<open>(int8)(r - local)\<close> is negative; a zero remote index is never
  expired.
\<close>

theorem C7_expired_iff:
  "Matrix_IsEventIndexExpired r s = (r \<noteq> 0 \<and> index_result r s < 0)"
  by (simp add: Matrix_IsEventIndexExpired_def)

theorem C7_expired_iff_witness:
  "Matrix_IsEventIndexExpired 3 \<lparr>eventIndex = 7\<rparr> \<and> (3 :: 8 word) \<noteq> 0
   \<and> index_result 3 \<lparr>eventIndex = 7\<rparr> < 0"
  using C7_expired_iff [of 3 "\<lparr>eventIndex = 7\<rparr>"] by (simp add: index_result_def)

text \<open>
  C7 as stated fails at remote index 0 with local index 1: \<open>(int8)(0 - 1) = -1\<close> is
  negative, yet the function answers false.
\<close>

theorem C7_counterexample:
  "index_result 0 \<lparr>eventIndex = 1\<rparr> < 0 \<and> \<not> Matrix_IsEventIndexExpired 0 \<lparr>eventIndex = 1\<rparr>"
  by (simp add: Matrix_IsEventIndexExpired_def index_result_def)

section \<open>Candidate address generation terminates in range\<close>

lemma propose_step_Inr:
  "xorIndex a \<le> 7 \<Longrightarrow> propose_step g a = Inr (candidate_address g a, advance_generator a)"
  by (simp add: propose_step_def word_le_nat_alt)

lemma advance_generator_xorIndex:
  assumes "xorIndex a \<le> 7"
  shows "xorIndex (advance_generator a) < 7"
proof -
  have u: "unat (xorIndex a) \<le> 7" using assms by (simp add: word_le_nat_alt)
  then have "unat (xorIndex a + 1) = unat (xorIndex a) + 1"
    by (simp add: unat_word_ariths)
  with u show ?thesis
    by (auto simp: advance_generator_def Let_def word_le_nat_alt word_less_nat_alt)
qed

lemma proposes_ok_step:
  assumes inv: "xorIndex a \<le> 7"
    and rest: "candidate_address g a = 0 \<or> candidate_address g a > 120
               \<Longrightarrow> proposes_ok g (advance_generator a)"
  shows "proposes_ok g a"
proof (cases "candidate_address g a = 0 \<or> candidate_address g a > 120")
  case True
  then have "propose_loop g a = propose_loop g (advance_generator a)"
    by (subst propose_loop.simps) (simp add: propose_step_Inr [OF inv])
  with rest [OF True] show ?thesis by (simp add: proposes_ok_def)
next
  case False
  then have eq: "propose_loop g a = Some (Inr (ucast (candidate_address g a), advance_generator a))"
    by (subst propose_loop.simps) (simp add: propose_step_Inr [OF inv])
  from False have "unat (candidate_address g a) \<noteq> 0" "unat (candidate_address g a) \<le> 120"
    by (auto simp: word_less_nat_alt unat_eq_0 not_less word_le_nat_alt)
  then have "1 \<le> (ucast (candidate_address g a) :: 8 word)
             \<and> (ucast (candidate_address g a) :: 8 word) \<le> 120"
    by (simp add: word_le_nat_alt unsigned_ucast_eq take_bit_eq_mod)
  with eq advance_generator_xorIndex [OF inv] show ?thesis
    by (simp add: proposes_ok_def)
qed

lemma proposes_ok_funpow:
  "xorIndex a \<le> 7 \<Longrightarrow> proposes_ok g ((advance_generator ^^ k) a) \<Longrightarrow> proposes_ok g a"
proof (induction k arbitrary: a)
  case 0
  then show ?case by simp
next
  case (Suc k)
  have "xorIndex (advance_generator a) \<le> 7"
    using advance_generator_xorIndex [OF Suc.prems(1)] by simp
  moreover have "proposes_ok g ((advance_generator ^^ k) (advance_generator a))"
    using Suc.prems(2) by (simp add: funpow_swap1)
  ultimately have "proposes_ok g (advance_generator a)" by (rule Suc.IH)
  then show ?case using Suc.prems(1) by (rule_tac proposes_ok_step) simp_all
qed

lemma advance_generator_eq:
  "advance_generator a =
     (if xorIndex a + 1 \<ge> 7
      then a\<lparr>xorIndex := 0, addressOffset := (addressOffset a + 1) AND 0x7F\<rparr>
      else a\<lparr>xorIndex := xorIndex a + 1\<rparr>)"
  by (simp add: advance_generator_def Let_def)

lemma reach_xorIndex_0:
  "unat (xorIndex a) = 7 - d \<Longrightarrow> d \<le> 7 \<Longrightarrow> \<exists>k. xorIndex ((advance_generator ^^ k) a) = 0"
proof (induction d arbitrary: a)
  case 0
  then have "xorIndex (advance_generator a) = 0"
    by (simp add: advance_generator_eq word_le_nat_alt unat_word_ariths)
  then have "xorIndex ((advance_generator ^^ 1) a) = 0" by simp
  then show ?case by blast
next
  case (Suc d)
  show ?case
  proof (cases "xorIndex a = 0")
    case True
    then have "xorIndex ((advance_generator ^^ 0) a) = 0" by simp
    then show ?thesis by blast
  next
    case False
    have u: "unat (xorIndex a + 1) = unat (xorIndex a) + 1"
      using Suc.prems by (simp add: unat_word_ariths)
    show ?thesis
    proof (cases "d = 0")
      case True
      with Suc.prems u have "xorIndex (advance_generator a) = 0"
        by (simp add: advance_generator_eq word_le_nat_alt)
      then have "xorIndex ((advance_generator ^^ 1) a) = 0" by simp
      then show ?thesis by blast
    next
      case d: False
      with Suc.prems u have "unat (xorIndex (advance_generator a)) = 7 - d"
        by (simp add: advance_generator_eq word_le_nat_alt) arith
      then obtain k where "xorIndex ((advance_generator ^^ k) (advance_generator a)) = 0"
        using Suc.IH [of "advance_generator a"] Suc.prems(2) by auto
      then have "xorIndex ((advance_generator ^^ Suc k) a) = 0" by (simp add: funpow_swap1)
      then show ?thesis by blast
    qed
  qed
qed

lemma advance_generator_lt:
  "unat (xorIndex a) < 6 \<Longrightarrow> advance_generator a = a\<lparr>xorIndex := xorIndex a + 1\<rparr>"
  by (simp add: advance_generator_eq word_le_nat_alt unat_word_ariths)

lemma advance_generator_6:
  "xorIndex a = 6 \<Longrightarrow>
   advance_generator a = a\<lparr>xorIndex := 0, addressOffset := (addressOffset a + 1) AND 0x7F\<rparr>"
  by (simp add: advance_generator_eq)

lemma advance_generator_block:
  assumes "xorIndex b = 0"
  shows "(advance_generator ^^ 7) b
         = b\<lparr>xorIndex := 0, addressOffset := (addressOffset b + 1) AND 0x7F\<rparr>"
proof -
  have 1: "advance_generator b = b\<lparr>xorIndex := 1\<rparr>"
    using assms by (simp add: advance_generator_lt)
  have 2: "advance_generator (b\<lparr>xorIndex := 1\<rparr>) = b\<lparr>xorIndex := 2\<rparr>"
    by (simp add: advance_generator_lt)
  have 3: "advance_generator (b\<lparr>xorIndex := 2\<rparr>) = b\<lparr>xorIndex := 3\<rparr>"
    by (simp add: advance_generator_lt)
  have 4: "advance_generator (b\<lparr>xorIndex := 3\<rparr>) = b\<lparr>xorIndex := 4\<rparr>"
    by (simp add: advance_generator_lt)
  have 5: "advance_generator (b\<lparr>xorIndex := 4\<rparr>) = b\<lparr>xorIndex := 5\<rparr>"
    by (simp add: advance_generator_lt)
  have 6: "advance_generator (b\<lparr>xorIndex := 5\<rparr>) = b\<lparr>xorIndex := 6\<rparr>"
    by (simp add: advance_generator_lt)
  have 7: "advance_generator (b\<lparr>xorIndex := 6\<rparr>)
           = b\<lparr>xorIndex := 0, addressOffset := (addressOffset b + 1) AND 0x7F\<rparr>"
    by (simp add: advance_generator_6)
  have "(advance_generator ^^ 7) b
        = advance_generator (advance_generator (advance_generator (advance_generator
            (advance_generator (advance_generator (advance_generator b))))))"
    by (simp add: eval_nat_numeral funpow_swap1)
  then show ?thesis by (simp only: 1 2 3 4 5 6 7)
qed


lemma unat_and_7F_32: "unat ((x :: 32 word) AND 0x7F) = unat x mod 128"
proof -
  have "x AND 0x7F = x AND mask 7" by (simp add: mask_eq_exp_minus_1)
  also have "\<dots> = take_bit 7 x" by (simp only: take_bit_eq_mask)
  also have "\<dots> = x mod 2 ^ 7" by (simp only: take_bit_eq_mod)
  finally have "x AND 0x7F = x mod 128" by simp
  then show ?thesis by (simp add: unat_mod)
qed

lemma unat_and_7F_16: "unat ((x :: 16 word) AND 0x7F) = unat x mod 128"
proof -
  have "x AND 0x7F = x AND mask 7" by (simp add: mask_eq_exp_minus_1)
  also have "\<dots> = take_bit 7 x" by (simp only: take_bit_eq_mask)
  also have "\<dots> = x mod 2 ^ 7" by (simp only: take_bit_eq_mod)
  finally have "x AND 0x7F = x mod 128" by simp
  then show ?thesis by (simp add: unat_mod)
qed

lemma candidate_address_block:
  assumes "xorIndex b = 0"
  shows "unat (candidate_address g ((advance_generator ^^ 7) b))
         = (unat (candidate_address g b) + 1) mod 128"
proof -
  define F where "F = foldl (\<lambda>acc b. acc + (ucast b XOR xorValue_of 0)) (0 :: 32 word) (guid_bytes g)"
  have o_lt: "unat (addressOffset b) < 65536"
    using unsigned_less [of "addressOffset b", where ?'a = nat] by simp
  have c1: "candidate_address g b = (F + ucast (addressOffset b)) AND 0x7F"
    using assms by (simp add: candidate_address_def F_def)
  have c2: "candidate_address g ((advance_generator ^^ 7) b)
            = (F + ucast ((addressOffset b + 1) AND 0x7F)) AND 0x7F"
    using assms by (simp add: advance_generator_block candidate_address_def F_def)
  have e1: "unat (candidate_address g b) = (unat F + unat (addressOffset b)) mod 4294967296 mod 128"
    unfolding c1 unat_and_7F_32
    by (simp add: unat_word_ariths unsigned_ucast_eq take_bit_eq_mod) presburger
  have e2: "unat (candidate_address g ((advance_generator ^^ 7) b))
            = (unat F + (unat (addressOffset b) + 1) mod 65536 mod 128) mod 4294967296 mod 128"
    unfolding c2 unat_and_7F_32
    by (simp add: unat_word_ariths unsigned_ucast_eq take_bit_eq_mod unat_and_7F_16)
  have m1: "x mod 4294967296 mod 128 = x mod 128" for x :: nat
    by (simp add: mod_mod_cancel)
  have m2: "x mod 65536 mod 128 = x mod 128" for x :: nat
    by (simp add: mod_mod_cancel)
  show ?thesis unfolding e1 e2 m1 m2 by (simp add: mod_simps)
qed

lemma measure_decreases:
  fixes c :: nat
  assumes "c < 128" and "c = 0 \<or> 120 < c"
  shows "(129 - (c + 1) mod 128) mod 128 < (129 - c) mod 128"
proof -
  from assms have "c = 0 \<or> c = 121 \<or> c = 122 \<or> c = 123 \<or> c = 124 \<or> c = 125
      \<or> c = 126 \<or> c = 127"
    by arith
  then show ?thesis by (elim disjE) simp_all
qed

lemma proposes_ok_xorIndex_0:
  "xorIndex b = 0 \<Longrightarrow> proposes_ok g b"
proof (induction "(129 - unat (candidate_address g b)) mod 128" arbitrary: b rule: less_induct)
  case less
  have inv: "xorIndex b \<le> 7" using less.prems by simp
  show ?case
  proof (rule proposes_ok_step [OF inv])
    assume bad: "candidate_address g b = 0 \<or> candidate_address g b > 120"
    let ?b' = "(advance_generator ^^ 7) b"
    have x0: "xorIndex ?b' = 0"
      using less.prems by (simp add: advance_generator_block)
    have cb: "unat (candidate_address g b) < 128"
      by (simp add: candidate_address_def unat_and_7F_32)
    have bad': "unat (candidate_address g b) = 0 \<or> unat (candidate_address g b) > 120"
    proof (cases "candidate_address g b = 0")
      case True
      then show ?thesis by simp
    next
      case False
      with bad have "unat (120 :: 32 word) < unat (candidate_address g b)"
        by (simp only: word_less_nat_alt simp_thms)
      then show ?thesis by simp
    qed
    have "(129 - unat (candidate_address g ?b')) mod 128
          < (129 - unat (candidate_address g b)) mod 128"
      unfolding candidate_address_block [OF less.prems]
      using cb bad' by (rule measure_decreases)
    then have "proposes_ok g ?b'" using less.hyps x0 by blast
    then have "proposes_ok g ((advance_generator ^^ 6) (advance_generator b))"
      by (simp add: eval_nat_numeral funpow_swap1)
    moreover have "xorIndex (advance_generator b) \<le> 7"
      using advance_generator_xorIndex [OF inv] by simp
    ultimately show "proposes_ok g (advance_generator b)"
      by (rule_tac proposes_ok_funpow)
  qed
qed

lemma proposes_ok_all:
  assumes "xorIndex a \<le> 7"
  shows "proposes_ok g a"
proof -
  have "unat (xorIndex a) = 7 - (7 - unat (xorIndex a))" "7 - unat (xorIndex a) \<le> 7"
    using assms by (simp_all add: word_le_nat_alt)
  then obtain k where "xorIndex ((advance_generator ^^ k) a) = 0"
    using reach_xorIndex_0 by blast
  then have "proposes_ok g ((advance_generator ^^ k) a)"
    by (rule proposes_ok_xorIndex_0)
  then show ?thesis
    using assms by (rule_tac proposes_ok_funpow)
qed

text \<open>
  C10. For every GUID and every generator state the code can be in (\<open>xorIndex\<close> at most
  7; reset gives 0 and every call leaves it below 7, whatever the address offset), the
  candidate-address loop returns, and the address it returns is in the range 1 to 120.
\<close>

theorem C10_candidate_address_terminates_in_range:
  assumes "xorIndex a \<le> 7"
  shows "\<exists>p a'. MatrixCanAddress_GetNextProposedCanAddress g a = Some (Inr (p, a'))
           \<and> 1 \<le> p \<and> p \<le> 120 \<and> xorIndex a' < 7"
  using proposes_ok_all [OF assms, of g]
  by (simp add: proposes_ok_def MatrixCanAddress_GetNextProposedCanAddress_def)

theorem C10_candidate_address_witness:
  "xorIndex \<lparr>xorIndex = 0, addressOffset = 0, requestTime = 0, proposedAddress = 0,
      file_address = 0, file_isStatic = 0\<rparr> \<le> 7 \<and>
   (\<exists>p a'. MatrixCanAddress_GetNextProposedCanAddress (0, 0, 0, 0)
      \<lparr>xorIndex = 0, addressOffset = 0, requestTime = 0, proposedAddress = 0,
        file_address = 0, file_isStatic = 0\<rparr> = Some (Inr (p, a'))
      \<and> 1 \<le> p \<and> p \<le> 120 \<and> xorIndex a' < 7)"
  using C10_candidate_address_terminates_in_range [of
      "\<lparr>xorIndex = 0, addressOffset = 0, requestTime = 0, proposedAddress = 0,
        file_address = 0, file_isStatic = 0\<rparr>" "(0, 0, 0, 0)"]
  by simp

section \<open>Address negotiation while proposing\<close>

lemma SendCanToken_message_CanAddress:
  "CanAddress (SendCanToken_message token m) = CanAddress m"
  by (simp add: SendCanToken_message_def Let_def split: prod.splits)

lemma SendCanToken_message_funpow_CanAddress:
  "CanAddress ((SendCanToken_message token ^^ n) m) = CanAddress m"
  by (induction n) (simp_all add: SendCanToken_message_CanAddress)

lemma Matrix_DelayStatusUpdate15mS_CanAddress:
  "CanAddress (Matrix_DelayStatusUpdate15mS m) = CanAddress m"
  by (simp add: Matrix_DelayStatusUpdate15mS_def)

lemma Matrix_PrivateSendCanToken_CanAddress:
  "CanAddress (snd (Matrix_PrivateSendCanToken token m)) = CanAddress m"
  by (simp add: Matrix_PrivateSendCanToken_def Let_def SendCanToken_message_funpow_CanAddress
      Matrix_DelayStatusUpdate15mS_CanAddress)

lemma CanTokenIn_discards:
  assumes "(key token = KeyResponseAddressInUse
            \<and> sint (val token) = uint (proposedAddress (CanAddress m)))
           \<or> (0 \<noteq> file_address (CanAddress m) \<and> file_address (CanAddress m) = address token
               \<and> file_isStatic (CanAddress m) = 0)"
  shows "MatrixCanAddress_CanTokenIn token m
         = m\<lparr>CanAddress := (CanAddress m)\<lparr>file_address := 0, proposedAddress := 0\<rparr>\<rparr>"
  using assms by (simp add: MatrixCanAddress_CanTokenIn_def Let_def)

lemma CanTokenIn_keeps:
  assumes "\<not> ((key token = KeyResponseAddressInUse
            \<and> sint (val token) = uint (proposedAddress (CanAddress m)))
           \<or> (0 \<noteq> file_address (CanAddress m) \<and> file_address (CanAddress m) = address token
               \<and> file_isStatic (CanAddress m) = 0))"
  shows "CanAddress (MatrixCanAddress_CanTokenIn token m) = CanAddress m"
  using assms
  by (auto simp: MatrixCanAddress_CanTokenIn_def Let_def Matrix_PrivateSendCanToken_CanAddress)

lemma Clock_proposes:
  assumes inv: "xorIndex (CanAddress m) \<le> 7"
    and nv: "\<not> Matrix_IsCanAddressValid (CanAddress m)"
    and p0: "proposedAddress (CanAddress m) = 0"
  shows "\<exists>m'. MatrixCanAddress_Clock g m = Some (Inr m')
           \<and> 1 \<le> proposedAddress (CanAddress m') \<and> proposedAddress (CanAddress m') \<le> 120"
proof -
  obtain p a' where g: "MatrixCanAddress_GetNextProposedCanAddress g (CanAddress m) = Some (Inr (p, a'))"
    and r: "1 \<le> p" "p \<le> 120"
    using proposes_ok_all [OF inv, of g]
    by (auto simp: proposes_ok_def MatrixCanAddress_GetNextProposedCanAddress_def)
  let ?m1 = "m\<lparr>CanAddress := a'\<lparr>proposedAddress := p\<rparr>\<rparr>"
  let ?tok = "\<lparr>flags = 0, address = 0, key = KeyRequestAddress, val = ucast p\<rparr>"
  obtain st m2 where s: "Matrix_PrivateSendCanToken ?tok ?m1 = (st, m2)"
    by (cases "Matrix_PrivateSendCanToken ?tok ?m1")
  have c: "CanAddress m2 = a'\<lparr>proposedAddress := p\<rparr>"
    using Matrix_PrivateSendCanToken_CanAddress [of ?tok ?m1] s by simp
  have "MatrixCanAddress_Clock g m
        = Some (Inr (m2\<lparr>CanAddress := (CanAddress m2)\<lparr>requestTime := systemTime m2 + 100\<rparr>\<rparr>))"
    using nv p0 g s by (simp add: MatrixCanAddress_Clock_def)
  with c r show ?thesis by simp
qed


text \<open>
  C8, as amended. While a candidate is proposed and not yet adopted (the address is not
  valid, the proposed address is not zero), an AddressInUse token carrying the candidate
  value discards the candidate (proposed and working address both become zero) and the
  next clock proposes a candidate in 1..120. A token that is not such an AddressInUse
  leaves the address object as it is, also when its sender's address equals the
  candidate, unless the sender's address equals this node's own non-zero working address.
\<close>

theorem C8_candidate_discarded_on_address_in_use:
  assumes "\<not> Matrix_IsCanAddressValid (CanAddress m)"
    and "proposedAddress (CanAddress m) \<noteq> 0"
    and "xorIndex (CanAddress m) \<le> 7"
  shows "(key token = KeyResponseAddressInUse
            \<and> sint (val token) = uint (proposedAddress (CanAddress m))
          \<longrightarrow> proposedAddress (CanAddress (MatrixCanAddress_CanTokenIn token m)) = 0
              \<and> file_address (CanAddress (MatrixCanAddress_CanTokenIn token m)) = 0
              \<and> (\<exists>m'. MatrixCanAddress_Clock g (MatrixCanAddress_CanTokenIn token m) = Some (Inr m')
                    \<and> 1 \<le> proposedAddress (CanAddress m')
                    \<and> proposedAddress (CanAddress m') \<le> 120))
       \<and> (\<not> (key token = KeyResponseAddressInUse
                \<and> sint (val token) = uint (proposedAddress (CanAddress m)))
            \<and> \<not> (0 \<noteq> file_address (CanAddress m)
                    \<and> file_address (CanAddress m) = address token)
          \<longrightarrow> CanAddress (MatrixCanAddress_CanTokenIn token m) = CanAddress m)"
proof (intro conjI impI)
  assume a: "key token = KeyResponseAddressInUse
             \<and> sint (val token) = uint (proposedAddress (CanAddress m))"
  let ?m' = "m\<lparr>CanAddress := (CanAddress m)\<lparr>file_address := 0, proposedAddress := 0\<rparr>\<rparr>"
  have eq: "MatrixCanAddress_CanTokenIn token m = ?m'"
    using a by (intro CanTokenIn_discards) simp
  show "proposedAddress (CanAddress (MatrixCanAddress_CanTokenIn token m)) = 0"
    and "file_address (CanAddress (MatrixCanAddress_CanTokenIn token m)) = 0"
    by (simp_all add: eq)
  have "\<not> Matrix_IsCanAddressValid (CanAddress ?m')"
    using assms(1) by (simp add: Matrix_IsCanAddressValid_def)
  moreover have "xorIndex (CanAddress ?m') \<le> 7" "proposedAddress (CanAddress ?m') = 0"
    using assms(3) by simp_all
  ultimately show "\<exists>m'. MatrixCanAddress_Clock g (MatrixCanAddress_CanTokenIn token m) = Some (Inr m')
      \<and> 1 \<le> proposedAddress (CanAddress m') \<and> proposedAddress (CanAddress m') \<le> 120"
    unfolding eq by (intro Clock_proposes)
next
  assume "\<not> (key token = KeyResponseAddressInUse
                \<and> sint (val token) = uint (proposedAddress (CanAddress m)))
            \<and> \<not> (0 \<noteq> file_address (CanAddress m)
                    \<and> file_address (CanAddress m) = address token)"
  then show "CanAddress (MatrixCanAddress_CanTokenIn token m) = CanAddress m"
    by (intro CanTokenIn_keeps) blast
qed

theorem C8_witness:
  "\<not> Matrix_IsCanAddressValid (CanAddress (proposing_MATRIX 64))
   \<and> proposedAddress (CanAddress (proposing_MATRIX 64)) \<noteq> 0
   \<and> xorIndex (CanAddress (proposing_MATRIX 64)) \<le> 7
   \<and> key \<lparr>flags = 0, address = 9, key = 3001, val = 64\<rparr> = KeyResponseAddressInUse
   \<and> sint (val \<lparr>flags = 0, address = 9, key = 3001, val = 64\<rparr>)
       = uint (proposedAddress (CanAddress (proposing_MATRIX 64)))
   \<and> proposedAddress (CanAddress (MatrixCanAddress_CanTokenIn
         \<lparr>flags = 0, address = 9, key = 3001, val = 64\<rparr> (proposing_MATRIX 64))) = 0
   \<and> (\<exists>m'. MatrixCanAddress_Clock (0, 0, 0, 0) (MatrixCanAddress_CanTokenIn
         \<lparr>flags = 0, address = 9, key = 3001, val = 64\<rparr> (proposing_MATRIX 64)) = Some (Inr m')
         \<and> 1 \<le> proposedAddress (CanAddress m') \<and> proposedAddress (CanAddress m') \<le> 120)"
  using C8_candidate_discarded_on_address_in_use
    [of "proposing_MATRIX 64" "\<lparr>flags = 0, address = 9, key = 3001, val = 64\<rparr>" "(0, 0, 0, 0)"]
  by (simp add: proposing_MATRIX_def zeroed_MATRIX_def zeroed_CAN_ADDRESS_def
      Matrix_IsCanAddressValid_def)

text \<open>
  C8 as stated fails: with candidate 64 proposed, a status token (key \<open>0x23E8\<close>) from
  sender address 64 leaves the state as it is, while an AddressInUse carrying 64 does not.
\<close>

theorem C8_counterexample:
  "\<not> Matrix_IsCanAddressValid (CanAddress (proposing_MATRIX 64))
   \<and> proposedAddress (CanAddress (proposing_MATRIX 64)) = 64
   \<and> MatrixCanAddress_CanTokenIn \<lparr>flags = 0, address = 64, key = 0x23E8, val = 1\<rparr>
        (proposing_MATRIX 64) = proposing_MATRIX 64
   \<and> MatrixCanAddress_CanTokenIn \<lparr>flags = 0, address = 9, key = 3001, val = 64\<rparr>
        (proposing_MATRIX 64) \<noteq> proposing_MATRIX 64"
  by (simp add: proposing_MATRIX_def zeroed_MATRIX_def zeroed_CAN_ADDRESS_def
      Matrix_IsCanAddressValid_def MatrixCanAddress_CanTokenIn_def)

section \<open>The transmitter frames a message as the specification describes\<close>

declare FinishMessage_loop.simps [simp del]
declare spec_message_frames.simps [simp del]

lemma SendFrame_nonempty:
  "fifo t \<noteq> [] \<Longrightarrow>
   SendFrame t =
     (0, t\<lparr>streamBuffer := (streamBuffer t)[unat (if streamBufferWriteIndex t \<ge> 40 then 0
                                                     else streamBufferWriteIndex t) :=
                \<lparr>tx_id = idAddress t, tx_frameIndex = frameIndex t, tx_data = take 8 (fifo t)\<rparr>],
            streamBufferWriteIndex := (if streamBufferWriteIndex t \<ge> 40 then 0
                                       else streamBufferWriteIndex t) + 1,
            enqueued := enqueued t @
                [\<lparr>tx_id = idAddress t, tx_frameIndex = frameIndex t, tx_data = take 8 (fifo t)\<rparr>],
            numBytesSent := numBytesSent t + of_nat (min (length (fifo t)) 8),
            frameIndex := (frameIndex t + 1) AND 0x1F,
            fifo := drop 8 (fifo t)\<rparr>)"
  by (simp add: SendFrame_def Let_def min_def)

lemma AddByte_no_send:
  "length (fifo t) < 15 \<Longrightarrow>
   MatrixTransmitter_AddByte b t
     = t\<lparr>crc := Matrix_AddByteToCRC16 b (crc t), fifo := fifo t @ [b]\<rparr>"
  by (simp add: MatrixTransmitter_AddByte_def Let_def)

lemma AddByte_send:
  "length (fifo t) = 15 \<Longrightarrow>
   MatrixTransmitter_AddByte b t
     = snd (SendFrame (t\<lparr>crc := Matrix_AddByteToCRC16 b (crc t), fifo := fifo t @ [b]\<rparr>))"
  by (simp add: MatrixTransmitter_AddByte_def Let_def)

lemma AddByte_fields:
  assumes "length (fifo t) < 16"
  shows "crc (MatrixTransmitter_AddByte b t) = Matrix_AddByteToCRC16 b (crc t)"
    and "idAddress (MatrixTransmitter_AddByte b t) = idAddress t"
    and "length (fifo (MatrixTransmitter_AddByte b t)) < 16"
proof -
  consider "length (fifo t) < 15" | "length (fifo t) = 15" using assms by linarith
  then have "crc (MatrixTransmitter_AddByte b t) = Matrix_AddByteToCRC16 b (crc t)
      \<and> idAddress (MatrixTransmitter_AddByte b t) = idAddress t
      \<and> length (fifo (MatrixTransmitter_AddByte b t)) < 16"
    by cases (simp_all add: AddByte_no_send AddByte_send SendFrame_nonempty)
  then show "crc (MatrixTransmitter_AddByte b t) = Matrix_AddByteToCRC16 b (crc t)"
    and "idAddress (MatrixTransmitter_AddByte b t) = idAddress t"
    and "length (fifo (MatrixTransmitter_AddByte b t)) < 16" by simp_all
qed

lemma AddByte_potential:
  assumes len: "length (fifo t) < 16"
    and body: "id_frameType (idAddress t) = MATRIX_MESSAGE_FRAME_TYPE_BODY"
  shows "enqueued (MatrixTransmitter_AddByte b t)
           @ spec_message_frames (idAddress t) ty (frameIndex (MatrixTransmitter_AddByte b t))
               (fifo (MatrixTransmitter_AddByte b t) @ rest)
         = enqueued t @ spec_message_frames (idAddress t) ty (frameIndex t) (fifo t @ b # rest)"
proof -
  consider "length (fifo t) < 15" | "length (fifo t) = 15" using len by linarith
  then show ?thesis
  proof cases
    case 1
    then show ?thesis by (simp add: AddByte_no_send)
  next
    case 2
    have idA: "(idAddress t)\<lparr>id_frameType := MATRIX_MESSAGE_FRAME_TYPE_BODY\<rparr> = idAddress t"
      using body by (cases "idAddress t") simp
    have "spec_message_frames (idAddress t) ty (frameIndex t) (fifo t @ b # rest)
          = \<lparr>tx_id = idAddress t, tx_frameIndex = frameIndex t, tx_data = take 8 (fifo t)\<rparr>
            # spec_message_frames (idAddress t) ty ((frameIndex t + 1) AND 0x1F)
                (drop 8 (fifo t) @ b # rest)"
      using 2 by (subst spec_message_frames.simps) (simp add: idA)
    then show ?thesis using 2 by (simp add: AddByte_send SendFrame_nonempty)
  qed
qed


lemma AddByte_fifo_nonempty:
  assumes "length (fifo t) < 16"
  shows "fifo (MatrixTransmitter_AddByte b t) \<noteq> []"
proof -
  consider "length (fifo t) < 15" | "length (fifo t) = 15" using assms by linarith
  then show ?thesis
    by cases (auto simp: AddByte_no_send AddByte_send SendFrame_nonempty)
qed

lemma AddBytes_Nil: "MatrixTransmitter_AddBytes [] t = t"
  by (simp add: MatrixTransmitter_AddBytes_def)

lemma AddBytes_Cons:
  "MatrixTransmitter_AddBytes (b # bs) t
   = MatrixTransmitter_AddBytes bs (MatrixTransmitter_AddByte b t)"
  by (simp add: MatrixTransmitter_AddBytes_def)

lemma AddBytes_snoc:
  "MatrixTransmitter_AddBytes (bs @ [b]) t
   = MatrixTransmitter_AddByte b (MatrixTransmitter_AddBytes bs t)"
  by (simp add: MatrixTransmitter_AddBytes_def)

lemma AddBytes_append:
  "MatrixTransmitter_AddBytes (as @ bs) t
   = MatrixTransmitter_AddBytes bs (MatrixTransmitter_AddBytes as t)"
  by (simp add: MatrixTransmitter_AddBytes_def)

lemma AddBytes_fields:
  assumes "length (fifo t) < 16"
  shows "crc (MatrixTransmitter_AddBytes bs t) = foldl (\<lambda>c b. Matrix_AddByteToCRC16 b c) (crc t) bs
       \<and> idAddress (MatrixTransmitter_AddBytes bs t) = idAddress t
       \<and> length (fifo (MatrixTransmitter_AddBytes bs t)) < 16"
  using assms
proof (induction bs arbitrary: t)
  case Nil
  then show ?case by (simp add: AddBytes_Nil)
next
  case (Cons b bs)
  from AddByte_fields [OF Cons.prems, of b] Cons.IH [of "MatrixTransmitter_AddByte b t"]
  show ?case by (simp add: AddBytes_Cons)
qed

lemma AddBytes_potential:
  assumes "length (fifo t) < 16"
    and "id_frameType (idAddress t) = MATRIX_MESSAGE_FRAME_TYPE_BODY"
  shows "enqueued (MatrixTransmitter_AddBytes bs t)
           @ spec_message_frames (idAddress t) ty (frameIndex (MatrixTransmitter_AddBytes bs t))
               (fifo (MatrixTransmitter_AddBytes bs t) @ rest)
         = enqueued t @ spec_message_frames (idAddress t) ty (frameIndex t) (fifo t @ bs @ rest)"
  using assms
proof (induction bs arbitrary: t)
  case Nil
  then show ?case by (simp add: AddBytes_Nil)
next
  case (Cons b bs)
  let ?t = "MatrixTransmitter_AddByte b t"
  have f: "idAddress ?t = idAddress t" "length (fifo ?t) < 16"
    using AddByte_fields [OF Cons.prems(1)] by simp_all
  have "enqueued (MatrixTransmitter_AddBytes bs ?t)
           @ spec_message_frames (idAddress ?t) ty (frameIndex (MatrixTransmitter_AddBytes bs ?t))
               (fifo (MatrixTransmitter_AddBytes bs ?t) @ rest)
        = enqueued ?t @ spec_message_frames (idAddress ?t) ty (frameIndex ?t) (fifo ?t @ bs @ rest)"
    using f Cons.prems(2) by (intro Cons.IH) simp_all
  also have "\<dots> = enqueued t @ spec_message_frames (idAddress t) ty (frameIndex t)
                      (fifo t @ b # bs @ rest)"
    unfolding f(1) using Cons.prems by (rule AddByte_potential)
  finally show ?case by (simp add: AddBytes_Cons f(1))
qed


lemma fifo_level_le: "fifo_level n \<le> n"
proof -
  have "n mod 8 < 8" by simp
  then show ?thesis unfolding fifo_level_def by auto
qed

lemma fifo_level_Suc:
  "fifo_level (Suc n) = (if fifo_level n = 15 then 8 else Suc (fifo_level n))"
proof -
  consider "n < 15" | "n = 15" | "16 \<le> n" by linarith
  then show ?thesis
  proof cases
    case 1
    then show ?thesis by (simp add: fifo_level_def)
  next
    case 2
    then show ?thesis by (simp add: fifo_level_def)
  next
    case 3
    have "n mod 8 < 8" by simp
    with 3 show ?thesis by (auto simp: fifo_level_def mod_Suc)
  qed
qed

lemma fifo_level_lt: "fifo_level n < 16"
proof -
  have "n mod 8 < 8" by simp
  then show ?thesis unfolding fifo_level_def by auto
qed

lemma AddBytes_level:
  assumes "fifo t = []"
  shows "fifo (MatrixTransmitter_AddBytes bs t) = drop (length bs - fifo_level (length bs)) bs
       \<and> numBytesSent (MatrixTransmitter_AddBytes bs t)
           = numBytesSent t + of_nat (length bs - fifo_level (length bs))"
proof (induction bs rule: rev_induct)
  case Nil
  then show ?case using assms by (simp add: AddBytes_Nil fifo_level_def)
next
  case (snoc b bs)
  let ?t = "MatrixTransmitter_AddBytes bs t"
  let ?n = "length bs"
  have le: "fifo_level ?n \<le> ?n" by (rule fifo_level_le)
  have len: "length (fifo ?t) = fifo_level ?n"
    using snoc le by simp
  show ?case
  proof (cases "fifo_level ?n = 15")
    case True
    then have "MatrixTransmitter_AddByte b ?t
          = snd (SendFrame (?t\<lparr>crc := Matrix_AddByteToCRC16 b (crc ?t), fifo := fifo ?t @ [b]\<rparr>))"
      using len by (simp add: AddByte_send)
    moreover have "Suc ?n - 8 = ?n - 15 + 8" using le True by simp
    ultimately show ?thesis
      using snoc True le len
      by (simp add: AddBytes_snoc SendFrame_nonempty fifo_level_Suc add.assoc)
  next
    case False
    then have "length (fifo ?t) < 15" using len fifo_level_lt [of ?n] by simp
    then have "MatrixTransmitter_AddByte b ?t
          = ?t\<lparr>crc := Matrix_AddByteToCRC16 b (crc ?t), fifo := fifo ?t @ [b]\<rparr>"
      by (rule AddByte_no_send)
    moreover have "Suc ?n - Suc (fifo_level ?n) = ?n - fifo_level ?n" by simp
    ultimately show ?thesis
      using snoc False le by (simp add: AddBytes_snoc fifo_level_Suc)
  qed
qed


lemma FinishMessage_loop_spec:
  assumes "fifo t \<noteq> []"
    and "id_frameType (idAddress t) = MATRIX_MESSAGE_FRAME_TYPE_BODY"
  shows "fst (FinishMessage_loop single t) = 0
       \<and> enqueued (snd (FinishMessage_loop single t))
           = enqueued t @ spec_message_frames (idAddress t)
               (if single then MATRIX_MESSAGE_FRAME_TYPE_SINGLE else MATRIX_MESSAGE_FRAME_TYPE_LAST)
               (frameIndex t) (fifo t)"
  using assms
proof (induction "length (fifo t)" arbitrary: t rule: less_induct)
  case less
  let ?ty = "if single then MATRIX_MESSAGE_FRAME_TYPE_SINGLE else MATRIX_MESSAGE_FRAME_TYPE_LAST"
  have idA: "(idAddress t)\<lparr>id_frameType := MATRIX_MESSAGE_FRAME_TYPE_BODY\<rparr> = idAddress t"
    using less.prems(2) by (cases "idAddress t") simp
  show ?case
  proof (cases "length (fifo t) \<le> 8")
    case True
    let ?t1 = "t\<lparr>idAddress := (idAddress t)\<lparr>id_frameType := ?ty\<rparr>\<rparr>"
    have ne: "fifo ?t1 \<noteq> []" using less.prems(1) by simp
    have "FinishMessage_loop single t = FinishMessage_loop single (snd (SendFrame ?t1))"
      using True less.prems(1)
      by (subst FinishMessage_loop.simps) (simp add: SendFrame_nonempty [OF ne] Let_def)
    also have "\<dots> = (0, snd (SendFrame ?t1))"
      using True by (subst FinishMessage_loop.simps) (simp add: SendFrame_nonempty [OF ne])
    finally have "FinishMessage_loop single t = (0, snd (SendFrame ?t1))" .
    moreover have "spec_message_frames (idAddress t) ?ty (frameIndex t) (fifo t)
        = [\<lparr>tx_id = (idAddress t)\<lparr>id_frameType := ?ty\<rparr>, tx_frameIndex = frameIndex t,
            tx_data = fifo t\<rparr>]"
      using True by (subst spec_message_frames.simps) simp
    ultimately show ?thesis using True by (simp add: SendFrame_nonempty [OF ne])
  next
    case False
    let ?t2 = "snd (SendFrame t)"
    have l: "FinishMessage_loop single t = FinishMessage_loop single ?t2"
      using False less.prems(1)
      by (subst FinishMessage_loop.simps) (simp add: SendFrame_nonempty Let_def)
    have t2: "fifo ?t2 = drop 8 (fifo t)" "idAddress ?t2 = idAddress t"
      "frameIndex ?t2 = (frameIndex t + 1) AND 0x1F"
      "enqueued ?t2 = enqueued t @ [\<lparr>tx_id = idAddress t, tx_frameIndex = frameIndex t,
                                      tx_data = take 8 (fifo t)\<rparr>]"
      using less.prems(1) by (simp_all add: SendFrame_nonempty)
    have "length (fifo ?t2) < length (fifo t)" "fifo ?t2 \<noteq> []"
      using False t2(1) by simp_all
    then have ih: "fst (FinishMessage_loop single ?t2) = 0
       \<and> enqueued (snd (FinishMessage_loop single ?t2))
           = enqueued ?t2 @ spec_message_frames (idAddress ?t2) ?ty (frameIndex ?t2) (fifo ?t2)"
      using less.prems(2) t2(2) by (intro less.hyps) simp_all
    have "spec_message_frames (idAddress t) ?ty (frameIndex t) (fifo t)
        = \<lparr>tx_id = idAddress t, tx_frameIndex = frameIndex t, tx_data = take 8 (fifo t)\<rparr>
          # spec_message_frames (idAddress t) ?ty ((frameIndex t + 1) AND 0x1F) (drop 8 (fifo t))"
      using False by (subst spec_message_frames.simps) (simp add: idA)
    with ih show ?thesis unfolding l t2 by simp
  qed
qed

lemma ComputeCRC16_foldl:
  "Matrix_ComputeCRC16 bytes = foldl (\<lambda>c b. Matrix_AddByteToCRC16 b c) 0 bytes"
  by (simp add: Matrix_ComputeCRC16_def)

lemma message_single:
  assumes "fifo t = []" and "numBytesSent t = 0"
    and "id_frameType (idAddress t) = MATRIX_MESSAGE_FRAME_TYPE_BODY"
    and "m \<noteq> []" and "length m \<le> 8"
  shows "fst (MatrixTransmitter_FinishMessage (MatrixTransmitter_AddBytes m t)) = 0
       \<and> enqueued (snd (MatrixTransmitter_FinishMessage (MatrixTransmitter_AddBytes m t)))
           = enqueued t @ spec_message_frames (idAddress t) MATRIX_MESSAGE_FRAME_TYPE_SINGLE
               (frameIndex t) m"
proof -
  let ?t2 = "MatrixTransmitter_AddBytes m t"
  have lv: "fifo_level (length m) = length m" using assms(5) by (simp add: fifo_level_def)
  have f: "fifo ?t2 = m" "numBytesSent ?t2 = 0"
    using AddBytes_level [OF assms(1), of m] assms(2) lv by simp_all
  have g: "idAddress ?t2 = idAddress t"
    using AddBytes_fields [of t m] assms(1) by simp
  have "MatrixTransmitter_FinishMessage ?t2 = FinishMessage_loop True ?t2"
    using f assms(5) by (simp add: MatrixTransmitter_FinishMessage_def)
  moreover have "fst (FinishMessage_loop True ?t2) = 0
       \<and> enqueued (snd (FinishMessage_loop True ?t2))
           = enqueued ?t2 @ spec_message_frames (idAddress ?t2) MATRIX_MESSAGE_FRAME_TYPE_SINGLE
               (frameIndex ?t2) (fifo ?t2)"
    using FinishMessage_loop_spec [of ?t2 True] f(1) g assms(3,4) by simp
  moreover have "enqueued ?t2 @ spec_message_frames (idAddress t) MATRIX_MESSAGE_FRAME_TYPE_SINGLE
               (frameIndex ?t2) (fifo ?t2 @ [])
        = enqueued t @ spec_message_frames (idAddress t) MATRIX_MESSAGE_FRAME_TYPE_SINGLE
               (frameIndex t) (fifo t @ m @ [])"
    using assms(1,3) by (intro AddBytes_potential) simp_all
  ultimately show ?thesis using assms(1) g by simp
qed

lemma message_multi:
  assumes "fifo t = []" and "numBytesSent t = 0" and "crc t = 0"
    and "id_frameType (idAddress t) = MATRIX_MESSAGE_FRAME_TYPE_BODY"
    and "8 < length m" and "length m < 65544"
  shows "fst (MatrixTransmitter_FinishMessage (MatrixTransmitter_AddBytes m t)) = 0
       \<and> enqueued (snd (MatrixTransmitter_FinishMessage (MatrixTransmitter_AddBytes m t)))
           = enqueued t @ spec_message_frames (idAddress t) MATRIX_MESSAGE_FRAME_TYPE_LAST
               (frameIndex t) (m @ crc_suffix (Matrix_ComputeCRC16 m))"
proof -
  let ?t2 = "MatrixTransmitter_AddBytes m t"
  let ?n = "length m"
  let ?c = "Matrix_ComputeCRC16 m"
  have lv: "length (fifo ?t2) = fifo_level ?n"
    and nb: "numBytesSent ?t2 = of_nat (?n - fifo_level ?n)"
    using AddBytes_level [OF assms(1), of m] assms(2) fifo_level_le [of ?n] by simp_all
  have g: "idAddress ?t2 = idAddress t" "crc ?t2 = ?c" "length (fifo ?t2) < 16"
    using AddBytes_fields [of t m] assms(1,3) by (simp_all add: ComputeCRC16_foldl)
  have small: "?n - fifo_level ?n < 65536"
    using assms(6) by (auto simp: fifo_level_def)
  have "8 < ?n - fifo_level ?n + fifo_level ?n"
    using assms(5) fifo_level_le [of ?n] by simp
  then have ns: "\<not> (8 \<ge> unat (numBytesSent ?t2) + length (fifo ?t2))"
    using small by (simp add: nb lv unat_of_nat)
  let ?t3 = "MatrixTransmitter_AddBytes (crc_suffix ?c) ?t2"
  have fin: "MatrixTransmitter_FinishMessage ?t2 = FinishMessage_loop False ?t3"
    using ns g(2)
    by (simp add: MatrixTransmitter_FinishMessage_def Let_def crc_suffix_def AddBytes_Cons AddBytes_Nil)
  have h: "idAddress ?t3 = idAddress t" "fifo ?t3 \<noteq> []"
  proof -
    show "idAddress ?t3 = idAddress t" using AddBytes_fields [of ?t2 "crc_suffix ?c"] g by simp
    have "?t3 = MatrixTransmitter_AddByte (ucast ?c)
                  (MatrixTransmitter_AddByte (ucast (drop_bit 8 ?c)) ?t2)"
      by (simp add: crc_suffix_def AddBytes_Cons AddBytes_Nil)
    moreover have "length (fifo (MatrixTransmitter_AddByte (ucast (drop_bit 8 ?c)) ?t2)) < 16"
      using AddByte_fields(3) [OF g(3)] by simp
    ultimately show "fifo ?t3 \<noteq> []" using AddByte_fifo_nonempty by simp
  qed
  have "fst (FinishMessage_loop False ?t3) = 0
       \<and> enqueued (snd (FinishMessage_loop False ?t3))
           = enqueued ?t3 @ spec_message_frames (idAddress ?t3) MATRIX_MESSAGE_FRAME_TYPE_LAST
               (frameIndex ?t3) (fifo ?t3)"
    using FinishMessage_loop_spec [of ?t3 False] h assms(4) by simp
  moreover have "enqueued ?t3 @ spec_message_frames (idAddress ?t2) MATRIX_MESSAGE_FRAME_TYPE_LAST
               (frameIndex ?t3) (fifo ?t3 @ [])
        = enqueued ?t2 @ spec_message_frames (idAddress ?t2) MATRIX_MESSAGE_FRAME_TYPE_LAST
               (frameIndex ?t2) (fifo ?t2 @ crc_suffix ?c @ [])"
    using g assms(4) by (intro AddBytes_potential) simp_all
  moreover have "enqueued ?t2 @ spec_message_frames (idAddress t) MATRIX_MESSAGE_FRAME_TYPE_LAST
               (frameIndex ?t2) (fifo ?t2 @ crc_suffix ?c)
        = enqueued t @ spec_message_frames (idAddress t) MATRIX_MESSAGE_FRAME_TYPE_LAST
               (frameIndex t) (fifo t @ m @ crc_suffix ?c)"
    using assms(1,4) by (intro AddBytes_potential) simp_all
  ultimately show ?thesis using fin h(1) g(1) assms(1) by simp
qed

lemma StartMessage_eq:
  "MatrixTransmitter_StartMessageWithAddressAndKey dest k ca (e, t)
   = (start_event k e, MatrixTransmitter_AddByte (start_byte k e) (start_init dest k ca t))"
  by (simp add: MatrixTransmitter_StartMessageWithAddressAndKey_def start_event_def start_byte_def
      start_init_def start_idAddress_def Let_def split: prod.splits)

lemma start_init_fields:
  "fifo (start_init dest k ca t) = []"
  "numBytesSent (start_init dest k ca t) = 0"
  "crc (start_init dest k ca t) = 0"
  "idAddress (start_init dest k ca t) = start_idAddress dest k ca"
  "id_frameType (start_idAddress dest k ca) = MATRIX_MESSAGE_FRAME_TYPE_BODY"
  "enqueued (start_init dest k ca t) = enqueued t"
  "frameIndex (start_init dest k ca t) = frameIndex t"
  by (simp_all add: start_init_def start_idAddress_def)

lemma crc_suffix_recombine:
  "push_bit 8 (ucast (ucast (drop_bit 8 c) :: 8 word) :: 16 word) OR ucast (ucast c :: 8 word)
   = (c :: 16 word)"
  by (rule bit_word_eqI) (auto simp: bit_simps)

lemma checksum_valid_suffix:
  "Matrix_IsMessageChecksumValid (m @ crc_suffix (Matrix_ComputeCRC16 m)) (length m + 2) = Some True"
  by (simp add: Matrix_IsMessageChecksumValid_def crc_suffix_def nth_append crc_suffix_recombine)

lemma spec_message_frames_concat:
  "concat (map tx_data (spec_message_frames idA ty fi bytes)) = bytes"
proof (induction "length bytes" arbitrary: fi bytes rule: less_induct)
  case less
  show ?case
  proof (cases "length bytes \<le> 8")
    case True
    then show ?thesis by (subst spec_message_frames.simps) simp
  next
    case False
    then have "concat (map tx_data (spec_message_frames idA ty ((fi + 1) AND 0x1F) (drop 8 bytes)))
               = drop 8 bytes"
      by (intro less.hyps) simp
    then show ?thesis using False by (subst spec_message_frames.simps) simp
  qed
qed


text \<open>
  The framing while the byte counter has not wrapped. For every message of fewer than
  65544 bytes (the first byte that
  \<open>MatrixTransmitter_StartMessageWithAddressAndKey\<close> adds and the bytes \<open>bs\<close> added
  after it): if the message has 8 bytes or less, \<open>MatrixTransmitter_FinishMessage\<close>
  enqueues one SINGLE frame holding exactly the message bytes, with no checksum; if it
  has more than 8 bytes, the frames enqueued for the message are the frames of the
  specification (\<open>spec_message_frames\<close>: BODY frames of eight bytes, then a LAST frame)
  for the message bytes followed by the two checksum bytes, their data concatenated is
  that byte stream, and the stream passes \<open>Matrix_IsMessageChecksumValid\<close>: the CRC-16
  over all bytes but the last two equals the last two, high byte first.
\<close>

lemma FinishMessage_frames_and_crc_below_wrap:
  assumes "length bs + 1 < 65544"
  shows
    "fst (MatrixTransmitter_FinishMessage (MatrixTransmitter_AddBytes bs
        (snd (MatrixTransmitter_StartMessageWithAddressAndKey dest k ca (e, t))))) = 0
     \<and> (length (start_byte k e # bs) \<le> 8 \<longrightarrow>
          enqueued (snd (MatrixTransmitter_FinishMessage (MatrixTransmitter_AddBytes bs
            (snd (MatrixTransmitter_StartMessageWithAddressAndKey dest k ca (e, t))))))
          = enqueued t @
            [\<lparr>tx_id = (start_idAddress dest k ca)\<lparr>id_frameType := MATRIX_MESSAGE_FRAME_TYPE_SINGLE\<rparr>,
              tx_frameIndex = frameIndex t, tx_data = start_byte k e # bs\<rparr>])
     \<and> (8 < length (start_byte k e # bs) \<longrightarrow>
          enqueued (snd (MatrixTransmitter_FinishMessage (MatrixTransmitter_AddBytes bs
            (snd (MatrixTransmitter_StartMessageWithAddressAndKey dest k ca (e, t))))))
          = enqueued t @
            spec_message_frames (start_idAddress dest k ca) MATRIX_MESSAGE_FRAME_TYPE_LAST (frameIndex t)
              ((start_byte k e # bs) @ crc_suffix (Matrix_ComputeCRC16 (start_byte k e # bs)))
          \<and> concat (map tx_data
               (spec_message_frames (start_idAddress dest k ca) MATRIX_MESSAGE_FRAME_TYPE_LAST (frameIndex t)
                 ((start_byte k e # bs) @ crc_suffix (Matrix_ComputeCRC16 (start_byte k e # bs)))))
             = (start_byte k e # bs) @ crc_suffix (Matrix_ComputeCRC16 (start_byte k e # bs))
          \<and> Matrix_IsMessageChecksumValid
               ((start_byte k e # bs) @ crc_suffix (Matrix_ComputeCRC16 (start_byte k e # bs)))
               (length (start_byte k e # bs) + 2) = Some True)"
proof -
  let ?t0 = "start_init dest k ca t"
  let ?m = "start_byte k e # bs"
  have st: "MatrixTransmitter_AddBytes bs
        (snd (MatrixTransmitter_StartMessageWithAddressAndKey dest k ca (e, t)))
        = MatrixTransmitter_AddBytes ?m ?t0"
    by (simp add: StartMessage_eq AddBytes_Cons)
  show ?thesis
  proof (cases "length ?m \<le> 8")
    case True
    have "fst (MatrixTransmitter_FinishMessage (MatrixTransmitter_AddBytes ?m ?t0)) = 0
       \<and> enqueued (snd (MatrixTransmitter_FinishMessage (MatrixTransmitter_AddBytes ?m ?t0)))
           = enqueued ?t0 @ spec_message_frames (idAddress ?t0) MATRIX_MESSAGE_FRAME_TYPE_SINGLE
               (frameIndex ?t0) ?m"
      using True by (intro message_single) (simp_all add: start_init_fields)
    moreover have "spec_message_frames (start_idAddress dest k ca) MATRIX_MESSAGE_FRAME_TYPE_SINGLE
               (frameIndex t) ?m
        = [\<lparr>tx_id = (start_idAddress dest k ca)\<lparr>id_frameType := MATRIX_MESSAGE_FRAME_TYPE_SINGLE\<rparr>,
              tx_frameIndex = frameIndex t, tx_data = ?m\<rparr>]"
      using True by (subst spec_message_frames.simps) simp
    ultimately show ?thesis using True unfolding st by (simp add: start_init_fields)
  next
    case False
    have "fst (MatrixTransmitter_FinishMessage (MatrixTransmitter_AddBytes ?m ?t0)) = 0
       \<and> enqueued (snd (MatrixTransmitter_FinishMessage (MatrixTransmitter_AddBytes ?m ?t0)))
           = enqueued ?t0 @ spec_message_frames (idAddress ?t0) MATRIX_MESSAGE_FRAME_TYPE_LAST
               (frameIndex ?t0) (?m @ crc_suffix (Matrix_ComputeCRC16 ?m))"
      using False assms by (intro message_multi) (simp_all add: start_init_fields)
    moreover have "Matrix_IsMessageChecksumValid (?m @ crc_suffix (Matrix_ComputeCRC16 ?m))
        (length ?m + 2) = Some True"
      by (rule checksum_valid_suffix)
    ultimately show ?thesis using False unfolding st
      by (simp add: start_init_fields spec_message_frames_concat)
  qed
qed


lemma FinishMessage_frames_and_crc_example:
  "length [1, 2, 3, 4, 5, 6, 7, 8, 9 :: 8 word] + 1 < 65544
   \<and> 8 < length (start_byte 0 \<lparr>eventIndex = 5\<rparr> # [1, 2, 3, 4, 5, 6, 7, 8, 9])
   \<and> enqueued (snd (MatrixTransmitter_FinishMessage (MatrixTransmitter_AddBytes
         [1, 2, 3, 4, 5, 6, 7, 8, 9]
         (snd (MatrixTransmitter_StartMessageWithAddressAndKey 0 0 zeroed_CAN_ADDRESS
            (\<lparr>eventIndex = 5\<rparr>, zeroed_TRANSMITTER))))))
       = enqueued zeroed_TRANSMITTER @
         spec_message_frames (start_idAddress 0 0 zeroed_CAN_ADDRESS) MATRIX_MESSAGE_FRAME_TYPE_LAST
           (frameIndex zeroed_TRANSMITTER)
           ((start_byte 0 \<lparr>eventIndex = 5\<rparr> # [1, 2, 3, 4, 5, 6, 7, 8, 9])
            @ crc_suffix (Matrix_ComputeCRC16 (start_byte 0 \<lparr>eventIndex = 5\<rparr> # [1, 2, 3, 4, 5, 6, 7, 8, 9])))
   \<and> Matrix_IsMessageChecksumValid
         ((start_byte 0 \<lparr>eventIndex = 5\<rparr> # [1, 2, 3, 4, 5, 6, 7, 8, 9])
          @ crc_suffix (Matrix_ComputeCRC16 (start_byte 0 \<lparr>eventIndex = 5\<rparr> # [1, 2, 3, 4, 5, 6, 7, 8, 9])))
         (length (start_byte 0 \<lparr>eventIndex = 5\<rparr> # [1, 2, 3, 4, 5, 6, 7, 8, 9]) + 2) = Some True"
  using FinishMessage_frames_and_crc_below_wrap [of "[1, 2, 3, 4, 5, 6, 7, 8, 9]" 0 0 zeroed_CAN_ADDRESS
      "\<lparr>eventIndex = 5\<rparr>" zeroed_TRANSMITTER]
  by simp



section \<open>The token send path\<close>

lemma Key_ValueSize_le: "Key_ValueSize k \<le> 4"
  by (simp add: Key_ValueSize_def Let_def)

lemma length_value_bytes: "length (value_bytes n v) = n"
  by (induction n) simp_all

lemma length_token_bytes: "length (token_bytes token) \<le> 6"
  using Key_ValueSize_le [of "key token"]
  by (simp add: token_bytes_def length_value_bytes)

lemma AddToken_eq:
  "MatrixTransmitter_AddToken token t = MatrixTransmitter_AddBytes (token_bytes token) t"
  by (simp add: MatrixTransmitter_AddToken_def token_bytes_def AddBytes_Cons Let_def)

lemma AddBytes_small:
  "length (fifo t) + length bs < 16 \<Longrightarrow>
   frameIndex (MatrixTransmitter_AddBytes bs t) = frameIndex t
   \<and> fifo (MatrixTransmitter_AddBytes bs t) = fifo t @ bs
   \<and> numBytesSent (MatrixTransmitter_AddBytes bs t) = numBytesSent t
   \<and> enqueued (MatrixTransmitter_AddBytes bs t) = enqueued t
   \<and> idAddress (MatrixTransmitter_AddBytes bs t) = idAddress t"
proof (induction bs arbitrary: t)
  case Nil
  then show ?case by (simp add: AddBytes_Nil)
next
  case (Cons b bs)
  then have "length (fifo t) < 15" by simp
  then have e: "MatrixTransmitter_AddByte b t
      = t\<lparr>crc := Matrix_AddByteToCRC16 b (crc t), fifo := fifo t @ [b]\<rparr>"
    by (rule AddByte_no_send)
  show ?case using Cons.IH [of "MatrixTransmitter_AddByte b t"] Cons.prems
    by (simp add: AddBytes_Cons e)
qed

lemma FinishMessage_loop_one_frame:
  assumes "fifo t \<noteq> []" and "length (fifo t) \<le> 8"
  shows "FinishMessage_loop single t
         = (0, snd (SendFrame (t\<lparr>idAddress := (idAddress t)\<lparr>id_frameType :=
              (if single then MATRIX_MESSAGE_FRAME_TYPE_SINGLE
               else MATRIX_MESSAGE_FRAME_TYPE_LAST)\<rparr>\<rparr>)))"
proof -
  let ?t1 = "t\<lparr>idAddress := (idAddress t)\<lparr>id_frameType :=
              (if single then MATRIX_MESSAGE_FRAME_TYPE_SINGLE
               else MATRIX_MESSAGE_FRAME_TYPE_LAST)\<rparr>\<rparr>"
  have ne: "fifo ?t1 \<noteq> []" using assms(1) by simp
  have "FinishMessage_loop single t = FinishMessage_loop single (snd (SendFrame ?t1))"
    using assms
    by (subst FinishMessage_loop.simps) (simp add: SendFrame_nonempty [OF ne] Let_def)
  also have "\<dots> = (0, snd (SendFrame ?t1))"
    using assms(2) by (subst FinishMessage_loop.simps) (simp add: SendFrame_nonempty [OF ne])
  finally show ?thesis .
qed

lemma token_message:
  fixes token :: TOKEN and ca e t
  defines "r \<equiv> snd (MatrixTransmitter_FinishMessage (MatrixTransmitter_AddToken token
      (snd (MatrixTransmitter_StartMessageWithAddressAndKey (address token) (key token) ca (e, t)))))"
  shows "enqueued r = enqueued t @ [token_message_frame token ca e (frameIndex t)]
       \<and> frameIndex r = (frameIndex t + 1) AND 0x1F"
proof -
  let ?t0 = "start_init (address token) (key token) ca t"
  let ?m = "start_byte (key token) e # token_bytes token"
  let ?t2 = "MatrixTransmitter_AddBytes ?m ?t0"
  have st: "MatrixTransmitter_AddToken token
      (snd (MatrixTransmitter_StartMessageWithAddressAndKey (address token) (key token) ca (e, t)))
      = ?t2"
    by (simp add: StartMessage_eq AddToken_eq AddBytes_Cons)
  have len: "length ?m \<le> 7" using length_token_bytes [of token] by simp
  then have "length (fifo ?t0) + length ?m < 16" by (simp add: start_init_fields)
  from AddBytes_small [OF this]
  have f: "frameIndex ?t2 = frameIndex t" "fifo ?t2 = ?m" "numBytesSent ?t2 = 0"
    "enqueued ?t2 = enqueued t" "idAddress ?t2 = start_idAddress (address token) (key token) ca"
    by (simp_all add: start_init_fields)
  have ne: "fifo ?t2 \<noteq> []" "length (fifo ?t2) \<le> 8" using f(2) len by simp_all
  have "MatrixTransmitter_FinishMessage ?t2 = FinishMessage_loop True ?t2"
    using f(2,3) len by (simp add: MatrixTransmitter_FinishMessage_def)
  then have "r = snd (SendFrame (?t2\<lparr>idAddress := (idAddress ?t2)\<lparr>id_frameType :=
       MATRIX_MESSAGE_FRAME_TYPE_SINGLE\<rparr>\<rparr>))"
    unfolding r_def st using FinishMessage_loop_one_frame [OF ne, of True] by simp
  then show ?thesis using ne(1) len f
    by (simp add: SendFrame_nonempty token_message_frame_def)
qed


lemma SendCanToken_message_effect:
  "EventIndex (SendCanToken_message token m) = start_event (key token) (EventIndex m)
   \<and> CanAddress (SendCanToken_message token m) = CanAddress m
   \<and> enqueued (Transmitter (SendCanToken_message token m))
       = enqueued (Transmitter m)
         @ [token_message_frame token (CanAddress m) (EventIndex m) (frameIndex (Transmitter m))]
   \<and> frameIndex (Transmitter (SendCanToken_message token m))
       = (frameIndex (Transmitter m) + 1) AND 0x1F"
  using token_message [of token "CanAddress m" "EventIndex m" "Transmitter m"]
  by (simp add: SendCanToken_message_def StartMessage_eq Let_def split_beta)

lemma Key_GetPrefix_negotiation:
  "Key_GetPrefix KeyRequestAddress = 0" "Key_GetPrefix KeyResponseAddressInUse = 0"
  by (simp_all add: Key_GetPrefix_def)

lemma start_event_idem:
  "start_event k (start_event k e) = start_event k e"
  "start_byte k (start_event k e) = start_byte k e"
  by (simp_all add: start_event_def start_byte_def Matrix_GetEventIndex_def Let_def)

lemma start_event_Next:
  "k \<noteq> KeyRequestAddress \<Longrightarrow> k \<noteq> KeyResponseAddressInUse \<Longrightarrow>
   start_event k (Matrix_NextEventIndex e) = Matrix_NextEventIndex e"
  by (simp add: start_event_def Matrix_GetEventIndex_def Matrix_NextEventIndex_def Let_def)

lemma token_message_frame_start_event:
  "token_message_frame token ca (start_event (key token) e) fi = token_message_frame token ca e fi"
  by (simp add: token_message_frame_def start_event_idem)

lemma SendCanToken_message_thrice:
  "EventIndex ((SendCanToken_message token ^^ 3) m) = start_event (key token) (EventIndex m)
   \<and> enqueued (Transmitter ((SendCanToken_message token ^^ 3) m))
       = enqueued (Transmitter m)
         @ [token_message_frame token (CanAddress m) (EventIndex m) (frameIndex (Transmitter m)),
            token_message_frame token (CanAddress m) (EventIndex m)
              ((frameIndex (Transmitter m) + 1) AND 0x1F),
            token_message_frame token (CanAddress m) (EventIndex m)
              ((((frameIndex (Transmitter m) + 1) AND 0x1F) + 1) AND 0x1F)]"
proof -
  let ?m1 = "SendCanToken_message token m"
  let ?m2 = "SendCanToken_message token ?m1"
  let ?m3 = "SendCanToken_message token ?m2"
  have e: "(SendCanToken_message token ^^ 3) m = ?m3"
    by (simp add: eval_nat_numeral)
  note 1 = SendCanToken_message_effect [of token m]
  note 2 = SendCanToken_message_effect [of token ?m1]
  note 3 = SendCanToken_message_effect [of token ?m2]
  show ?thesis unfolding e
    using 1 2 3 by (simp add: start_event_idem token_message_frame_start_event)
qed

lemma AddBytes_small_ring:
  "length (fifo t) + length bs < 16 \<Longrightarrow>
   streamBuffer (MatrixTransmitter_AddBytes bs t) = streamBuffer t
   \<and> streamBufferWriteIndex (MatrixTransmitter_AddBytes bs t) = streamBufferWriteIndex t"
proof (induction bs arbitrary: t)
  case Nil
  then show ?case by (simp add: AddBytes_Nil)
next
  case (Cons b bs)
  then have "length (fifo t) < 15" by simp
  then have e: "MatrixTransmitter_AddByte b t
      = t\<lparr>crc := Matrix_AddByteToCRC16 b (crc t), fifo := fifo t @ [b]\<rparr>"
    by (rule AddByte_no_send)
  show ?case using Cons.IH [of "MatrixTransmitter_AddByte b t"] Cons.prems
    by (simp add: AddBytes_Cons e)
qed

lemma token_message_ring:
  fixes token :: TOKEN and ca e t
  defines "r \<equiv> snd (MatrixTransmitter_FinishMessage (MatrixTransmitter_AddToken token
      (snd (MatrixTransmitter_StartMessageWithAddressAndKey (address token) (key token) ca (e, t)))))"
  shows "streamBuffer r = (streamBuffer t)
           [unat (if streamBufferWriteIndex t \<ge> 40 then 0 else streamBufferWriteIndex t)
              := token_message_frame token ca e (frameIndex t)]
       \<and> streamBufferWriteIndex r
           = (if streamBufferWriteIndex t \<ge> 40 then 0 else streamBufferWriteIndex t) + 1"
proof -
  let ?t0 = "start_init (address token) (key token) ca t"
  let ?m = "start_byte (key token) e # token_bytes token"
  let ?t2 = "MatrixTransmitter_AddBytes ?m ?t0"
  have st: "MatrixTransmitter_AddToken token
      (snd (MatrixTransmitter_StartMessageWithAddressAndKey (address token) (key token) ca (e, t)))
      = ?t2"
    by (simp add: StartMessage_eq AddToken_eq AddBytes_Cons)
  have len: "length ?m \<le> 7" using length_token_bytes [of token] by simp
  then have small: "length (fifo ?t0) + length ?m < 16" by (simp add: start_init_fields)
  from AddBytes_small [OF small]
  have f: "frameIndex ?t2 = frameIndex t" "fifo ?t2 = ?m" "numBytesSent ?t2 = 0"
    "enqueued ?t2 = enqueued t" "idAddress ?t2 = start_idAddress (address token) (key token) ca"
    by (simp_all add: start_init_fields)
  from AddBytes_small_ring [OF small]
  have g: "streamBuffer ?t2 = streamBuffer t" "streamBufferWriteIndex ?t2 = streamBufferWriteIndex t"
    by (simp_all add: start_init_def)
  have ne: "fifo ?t2 \<noteq> []" "length (fifo ?t2) \<le> 8" using f(2) len by simp_all
  have "MatrixTransmitter_FinishMessage ?t2 = FinishMessage_loop True ?t2"
    using f(2,3) len by (simp add: MatrixTransmitter_FinishMessage_def)
  then have "r = snd (SendFrame (?t2\<lparr>idAddress := (idAddress ?t2)\<lparr>id_frameType :=
       MATRIX_MESSAGE_FRAME_TYPE_SINGLE\<rparr>\<rparr>))"
    unfolding r_def st using FinishMessage_loop_one_frame [OF ne, of True] by simp
  then show ?thesis using ne(1) len f g
    by (simp add: SendFrame_nonempty token_message_frame_def)
qed

lemma SendCanToken_message_ring:
  "streamBuffer (Transmitter (SendCanToken_message token m))
     = (streamBuffer (Transmitter m))
         [unat (if streamBufferWriteIndex (Transmitter m) \<ge> 40 then 0
                else streamBufferWriteIndex (Transmitter m))
            := token_message_frame token (CanAddress m) (EventIndex m) (frameIndex (Transmitter m))]
   \<and> streamBufferWriteIndex (Transmitter (SendCanToken_message token m))
       = (if streamBufferWriteIndex (Transmitter m) \<ge> 40 then 0
          else streamBufferWriteIndex (Transmitter m)) + 1"
  using token_message_ring [of token "CanAddress m" "EventIndex m" "Transmitter m"]
  by (simp add: SendCanToken_message_def StartMessage_eq Let_def split_beta)

lemma SendCanToken_message_thrice_ring:
  fixes token m
  defines "w0 \<equiv> (if streamBufferWriteIndex (Transmitter m) \<ge> 40 then 0
                   else streamBufferWriteIndex (Transmitter m))"
  defines "w1 \<equiv> (if w0 + 1 \<ge> 40 then 0 else w0 + 1)"
  defines "w2 \<equiv> (if w1 + 1 \<ge> 40 then 0 else w1 + 1)"
  shows "streamBuffer (Transmitter ((SendCanToken_message token ^^ 3) m))
       = (streamBuffer (Transmitter m))
         [unat w0 := token_message_frame token (CanAddress m) (EventIndex m) (frameIndex (Transmitter m)),
          unat w1 := token_message_frame token (CanAddress m) (EventIndex m)
              ((frameIndex (Transmitter m) + 1) AND 0x1F),
          unat w2 := token_message_frame token (CanAddress m) (EventIndex m)
              ((((frameIndex (Transmitter m) + 1) AND 0x1F) + 1) AND 0x1F)]
     \<and> streamBufferWriteIndex (Transmitter ((SendCanToken_message token ^^ 3) m)) = w2 + 1
     \<and> frameIndex (Transmitter ((SendCanToken_message token ^^ 3) m))
         = (((((frameIndex (Transmitter m) + 1) AND 0x1F) + 1) AND 0x1F) + 1) AND 0x1F"
proof -
  let ?m1 = "SendCanToken_message token m"
  let ?m2 = "SendCanToken_message token ?m1"
  let ?m3 = "SendCanToken_message token ?m2"
  have e: "(SendCanToken_message token ^^ 3) m = ?m3"
    by (simp add: eval_nat_numeral)
  note 1 = SendCanToken_message_effect [of token m] SendCanToken_message_ring [of token m]
  note 2 = SendCanToken_message_effect [of token ?m1] SendCanToken_message_ring [of token ?m1]
  note 3 = SendCanToken_message_effect [of token ?m2] SendCanToken_message_ring [of token ?m2]
  have a1: "streamBufferWriteIndex (Transmitter ?m1) = w0 + 1"
    and b1: "streamBuffer (Transmitter ?m1) = (streamBuffer (Transmitter m))
         [unat w0 := token_message_frame token (CanAddress m) (EventIndex m) (frameIndex (Transmitter m))]"
    using 1 by (simp_all add: w0_def)
  have a2: "streamBufferWriteIndex (Transmitter ?m2) = w1 + 1"
    and b2: "streamBuffer (Transmitter ?m2) = (streamBuffer (Transmitter ?m1))
         [unat w1 := token_message_frame token (CanAddress m) (EventIndex m)
              ((frameIndex (Transmitter m) + 1) AND 0x1F)]"
    using 1(1) 2 unfolding a1 w1_def
    by (simp_all add: token_message_frame_start_event)
  have a3: "streamBufferWriteIndex (Transmitter ?m3) = w2 + 1"
    and b3: "streamBuffer (Transmitter ?m3) = (streamBuffer (Transmitter ?m2))
         [unat w2 := token_message_frame token (CanAddress m) (EventIndex m)
              ((((frameIndex (Transmitter m) + 1) AND 0x1F) + 1) AND 0x1F)]"
    using 1(1) 2(1) 3 unfolding a2 w2_def
    by (simp_all add: token_message_frame_start_event start_event_idem)
  have f3: "frameIndex (Transmitter ?m3)
         = (((((frameIndex (Transmitter m) + 1) AND 0x1F) + 1) AND 0x1F) + 1) AND 0x1F"
    using 1(1) 2(1) 3(1) by simp
  show ?thesis unfolding e b3 b2 b1 a3 f3 by simp
qed


lemma NextEventIndex_value:
  "eventIndex (Matrix_NextEventIndex e) = (if eventIndex e + 1 = 0 then 1 else eventIndex e + 1)"
  by (simp add: Matrix_NextEventIndex_def Let_def)

lemma NextEventIndex_moves:
  "eventIndex (Matrix_NextEventIndex e) \<noteq> eventIndex e"
  "eventIndex (Matrix_NextEventIndex e) \<noteq> 0"
proof -
  have "eventIndex e + 1 = 0 \<Longrightarrow> eventIndex e \<noteq> 1"
  proof
    assume "eventIndex e + 1 = 0" and "eventIndex e = 1"
    then have "(1 :: 16 word) + 1 = 0" by simp
    then show False by simp
  qed
  then show "eventIndex (Matrix_NextEventIndex e) \<noteq> eventIndex e"
    by (auto simp: NextEventIndex_value)
  show "eventIndex (Matrix_NextEventIndex e) \<noteq> 0"
    by (simp add: NextEventIndex_value)
qed

lemma input_status_frame:
  assumes "KeyPrefix_InputStatus = Key_GetPrefix (key token)"
  shows "token_message_frame token ca (Matrix_NextEventIndex e) fi
       = \<lparr>tx_id = \<lparr>id_destinationAddress = ucast (address token), id_isEvent = True,
                   id_sourceAddress = ucast (Matrix_GetCanAddress ca),
                   id_frameType = MATRIX_MESSAGE_FRAME_TYPE_SINGLE\<rparr>,
          tx_frameIndex = fi,
          tx_data = ucast (if eventIndex e + 1 = 0 then 1 else eventIndex e + 1)
                    # ucast (drop_bit 8 (key token)) # ucast (key token)
                    # value_bytes (Key_ValueSize (key token)) (val token)\<rparr>"
proof -
  have k: "key token \<noteq> KeyRequestAddress" "key token \<noteq> KeyResponseAddressInUse"
    using assms Key_GetPrefix_negotiation by auto
  have sb: "start_byte (key token) (Matrix_NextEventIndex e)
          = ucast (if eventIndex e + 1 = 0 then 1 else eventIndex e + 1)"
    using k NextEventIndex_moves(2) [of e]
    by (simp add: start_byte_def Matrix_GetEventIndex_def Let_def NextEventIndex_value)
  show ?thesis
    using assms k unfolding token_message_frame_def sb
    by (simp add: start_idAddress_def token_bytes_def)
qed

lemma other_frame:
  assumes "KeyPrefix_InputStatus \<noteq> Key_GetPrefix (key token)"
  shows "token_message_frame token ca e fi
       = \<lparr>tx_id = \<lparr>id_destinationAddress = ucast (address token),
                   id_isEvent = (key token \<noteq> KeyRequestAddress
                      \<and> key token \<noteq> KeyResponseAddressInUse
                      \<and> KeyPrefix_OutputStatus = Key_GetPrefix (key token)),
                   id_sourceAddress = ucast (Matrix_GetCanAddress ca),
                   id_frameType = MATRIX_MESSAGE_FRAME_TYPE_SINGLE\<rparr>,
          tx_frameIndex = fi,
          tx_data = (if key token = KeyRequestAddress \<or> key token = KeyResponseAddressInUse
                     then 0 else ucast (if eventIndex e = 0 then 1 else eventIndex e))
                    # ucast (drop_bit 8 (key token)) # ucast (key token)
                    # value_bytes (if KeyPrefix_PatternSync = Key_GetPrefix (key token) then 1
                                   else Key_ValueSize (key token)) (val token)\<rparr>"
  using assms unfolding token_message_frame_def
  by (auto simp: start_idAddress_def token_bytes_def start_byte_def Matrix_GetEventIndex_def Let_def)

lemma start_event_value:
  "eventIndex (start_event k e)
     = (if k = KeyRequestAddress \<or> k = KeyResponseAddressInUse then eventIndex e
        else if eventIndex e = 0 then 1 else eventIndex e)"
  by (simp add: start_event_def Matrix_GetEventIndex_def Let_def)

text \<open>
  C9. Whenever \<open>Matrix_PrivateSendCanToken\<close> sends (the address is valid, or the token is
  an address request), for a token whose key has the input-status prefix: the event
  index is first advanced to the next value (one more, and 1 instead of 0 when the
  16-bit field wraps), which differs from the old value and is not zero; then three
  frames are written to the transmit ring at consecutive write positions, each a SINGLE
  frame flagged as event with the same addresses and the same payload (the low byte of
  the new event index, the two key bytes, the value bytes of the key's size), differing
  only in the running frame index. For every other token exactly one frame is written,
  and the event index is not advanced (it only leaves 0 when the start of the message
  reads it).
\<close>

theorem C9_input_status_sent_three_times:
  fixes token :: TOKEN and m :: MATRIX
  defines "m' \<equiv> snd (Matrix_PrivateSendCanToken token m)"
    and "old \<equiv> eventIndex (EventIndex m)"
    and "f0 \<equiv> frameIndex (Transmitter m)"
    and "w0 \<equiv> (if streamBufferWriteIndex (Transmitter m) \<ge> 40 then 0
                 else streamBufferWriteIndex (Transmitter m))"
  defines "new \<equiv> (if old + 1 = 0 then 1 else old + 1)"
    and "f1 \<equiv> (f0 + 1) AND 0x1F"
    and "w1 \<equiv> (if w0 + 1 \<ge> 40 then 0 else w0 + 1)"
  defines "f2 \<equiv> (f1 + 1) AND 0x1F"
    and "w2 \<equiv> (if w1 + 1 \<ge> 40 then 0 else w1 + 1)"
    and "event_frame \<equiv> \<lambda>fi.
          \<lparr>tx_id = \<lparr>id_destinationAddress = ucast (address token), id_isEvent = True,
                     id_sourceAddress = ucast (Matrix_GetCanAddress (CanAddress m)),
                     id_frameType = MATRIX_MESSAGE_FRAME_TYPE_SINGLE\<rparr>,
            tx_frameIndex = fi,
            tx_data = ucast new # ucast (drop_bit 8 (key token)) # ucast (key token)
                      # value_bytes (Key_ValueSize (key token)) (val token)\<rparr>"
    and "other_frame \<equiv>
          \<lparr>tx_id = \<lparr>id_destinationAddress = ucast (address token),
                     id_isEvent = (key token \<noteq> KeyRequestAddress
                        \<and> key token \<noteq> KeyResponseAddressInUse
                        \<and> KeyPrefix_OutputStatus = Key_GetPrefix (key token)),
                     id_sourceAddress = ucast (Matrix_GetCanAddress (CanAddress m)),
                     id_frameType = MATRIX_MESSAGE_FRAME_TYPE_SINGLE\<rparr>,
            tx_frameIndex = f0,
            tx_data = (if key token = KeyRequestAddress \<or> key token = KeyResponseAddressInUse
                       then 0 else ucast (if old = 0 then 1 else old))
                      # ucast (drop_bit 8 (key token)) # ucast (key token)
                      # value_bytes (if KeyPrefix_PatternSync = Key_GetPrefix (key token) then 1
                                     else Key_ValueSize (key token)) (val token)\<rparr>"
  assumes "Matrix_IsCanAddressValid (CanAddress m) \<or> key token = KeyRequestAddress"
  shows "fst (Matrix_PrivateSendCanToken token m) = 0
    \<and> (KeyPrefix_InputStatus = Key_GetPrefix (key token) \<longrightarrow>
         eventIndex (EventIndex m') = new \<and> new \<noteq> old \<and> new \<noteq> 0
         \<and> enqueued (Transmitter m')
             = enqueued (Transmitter m) @ [event_frame f0, event_frame f1, event_frame f2]
         \<and> streamBuffer (Transmitter m')
             = (streamBuffer (Transmitter m))
                 [unat w0 := event_frame f0, unat w1 := event_frame f1, unat w2 := event_frame f2]
         \<and> streamBufferWriteIndex (Transmitter m') = w2 + 1
         \<and> frameIndex (Transmitter m') = (f2 + 1) AND 0x1F)
    \<and> (KeyPrefix_InputStatus \<noteq> Key_GetPrefix (key token) \<longrightarrow>
         eventIndex (EventIndex m')
           = (if key token = KeyRequestAddress \<or> key token = KeyResponseAddressInUse then old
              else if old = 0 then 1 else old)
         \<and> enqueued (Transmitter m') = enqueued (Transmitter m) @ [other_frame]
         \<and> streamBuffer (Transmitter m') = (streamBuffer (Transmitter m))[unat w0 := other_frame]
         \<and> streamBufferWriteIndex (Transmitter m') = w0 + 1
         \<and> frameIndex (Transmitter m') = f1)"
proof (cases "KeyPrefix_InputStatus = Key_GetPrefix (key token)")
  case True
  then have k: "key token \<noteq> KeyRequestAddress" "key token \<noteq> KeyResponseAddressInUse"
    using Key_GetPrefix_negotiation by auto
  let ?e1 = "Matrix_NextEventIndex (EventIndex m)"
  let ?m1 = "Matrix_DelayStatusUpdate15mS (m\<lparr>EventIndex := ?e1\<rparr>)"
  have m1: "EventIndex ?m1 = ?e1" "CanAddress ?m1 = CanAddress m"
    "Transmitter ?m1 = Transmitter m"
    by (simp_all add: Matrix_DelayStatusUpdate15mS_def)
  have r: "Matrix_PrivateSendCanToken token m = (0, (SendCanToken_message token ^^ 3) ?m1)"
    using assms(12) True by (simp add: Matrix_PrivateSendCanToken_def Let_def)
  have fr: "token_message_frame token (CanAddress m) ?e1 fi = event_frame fi" for fi
    unfolding event_frame_def new_def old_def by (rule input_status_frame [OF True])
  have n1: "eventIndex ?e1 = new"
    unfolding NextEventIndex_value new_def old_def by (rule refl)
  have n: "eventIndex ?e1 = new" "new \<noteq> old" "new \<noteq> 0"
    using NextEventIndex_moves [of "EventIndex m"] n1
    unfolding n1 old_def by - assumption+
  have ev: "eventIndex (EventIndex m') = new"
    using SendCanToken_message_thrice [of token ?m1] k n(1)
    by (simp add: m'_def r m1 start_event_Next)
  have enq: "enqueued (Transmitter m')
             = enqueued (Transmitter m) @ [event_frame f0, event_frame f1, event_frame f2]"
    using SendCanToken_message_thrice [of token ?m1]
    by (simp add: m'_def r m1 fr f0_def f1_def f2_def)
  have ring: "streamBuffer (Transmitter m')
             = (streamBuffer (Transmitter m))
                 [unat w0 := event_frame f0, unat w1 := event_frame f1, unat w2 := event_frame f2]"
    "streamBufferWriteIndex (Transmitter m') = w2 + 1"
    "frameIndex (Transmitter m') = (f2 + 1) AND 0x1F"
    using SendCanToken_message_thrice_ring [of token ?m1]
    by (simp_all add: m'_def r m1 fr f0_def f1_def f2_def w0_def w1_def w2_def)
  show ?thesis using True r ev n(2,3) enq ring by simp
next
  case False
  have r: "Matrix_PrivateSendCanToken token m = (0, SendCanToken_message token m)"
    using assms(12) False by (auto simp: Matrix_PrivateSendCanToken_def Let_def)
  have fr: "token_message_frame token (CanAddress m) (EventIndex m) f0 = other_frame"
    unfolding other_frame_def old_def by (rule other_frame [OF False])
  have ev: "eventIndex (EventIndex m')
           = (if key token = KeyRequestAddress \<or> key token = KeyResponseAddressInUse then old
              else if old = 0 then 1 else old)"
    using SendCanToken_message_effect [of token m]
    by (simp add: m'_def r start_event_value old_def)
  have enq: "enqueued (Transmitter m') = enqueued (Transmitter m) @ [other_frame]"
    "frameIndex (Transmitter m') = f1"
    using SendCanToken_message_effect [of token m]
    by (simp_all add: m'_def r fr [symmetric] f0_def f1_def)
  have ring: "streamBuffer (Transmitter m') = (streamBuffer (Transmitter m))[unat w0 := other_frame]"
    "streamBufferWriteIndex (Transmitter m') = w0 + 1"
    using SendCanToken_message_ring [of token m]
    by (simp_all add: m'_def r fr [symmetric] f0_def w0_def)
  show ?thesis using False r ev enq ring by simp
qed


theorem C9_witness:
  "Matrix_IsCanAddressValid (CanAddress sending_MATRIX)
   \<and> KeyPrefix_InputStatus = Key_GetPrefix (key \<lparr>flags = 0, address = 0, key = 0x43E8, val = 1\<rparr>)
   \<and> \<not> Key_IsLocalVariable 0x43E8
   \<and> eventIndex (EventIndex sending_MATRIX) = 5
   \<and> eventIndex (EventIndex (snd (Matrix_PrivateSendCanToken
        \<lparr>flags = 0, address = 0, key = 0x43E8, val = 1\<rparr> sending_MATRIX))) = 6
   \<and> map (\<lambda>f. (tx_frameIndex f, id_isEvent (tx_id f), id_frameType (tx_id f), tx_data f))
        (enqueued (Transmitter (snd (Matrix_PrivateSendCanToken
           \<lparr>flags = 0, address = 0, key = 0x43E8, val = 1\<rparr> sending_MATRIX))))
      = [(0, True, MATRIX_MESSAGE_FRAME_TYPE_SINGLE, [6, 0x43, 0xE8, 1]),
         (1, True, MATRIX_MESSAGE_FRAME_TYPE_SINGLE, [6, 0x43, 0xE8, 1]),
         (2, True, MATRIX_MESSAGE_FRAME_TYPE_SINGLE, [6, 0x43, 0xE8, 1])]
   \<and> map (\<lambda>i. streamBuffer (Transmitter (snd (Matrix_PrivateSendCanToken
           \<lparr>flags = 0, address = 0, key = 0x43E8, val = 1\<rparr> sending_MATRIX))) ! i) [0, 1, 2]
      = enqueued (Transmitter (snd (Matrix_PrivateSendCanToken
           \<lparr>flags = 0, address = 0, key = 0x43E8, val = 1\<rparr> sending_MATRIX)))
   \<and> streamBufferWriteIndex (Transmitter (snd (Matrix_PrivateSendCanToken
           \<lparr>flags = 0, address = 0, key = 0x43E8, val = 1\<rparr> sending_MATRIX))) = 3
   \<and> KeyPrefix_InputStatus \<noteq> Key_GetPrefix (key \<lparr>flags = 0, address = 0, key = 0x23E8, val = 1\<rparr>)
   \<and> eventIndex (EventIndex (snd (Matrix_PrivateSendCanToken
        \<lparr>flags = 0, address = 0, key = 0x23E8, val = 1\<rparr> sending_MATRIX))) = 5
   \<and> map (\<lambda>f. (tx_frameIndex f, id_isEvent (tx_id f), id_frameType (tx_id f), tx_data f))
        (enqueued (Transmitter (snd (Matrix_PrivateSendCanToken
           \<lparr>flags = 0, address = 0, key = 0x23E8, val = 1\<rparr> sending_MATRIX))))
      = [(0, True, MATRIX_MESSAGE_FRAME_TYPE_SINGLE, [5, 0x23, 0xE8, 1])]
   \<and> streamBufferWriteIndex (Transmitter (snd (Matrix_PrivateSendCanToken
           \<lparr>flags = 0, address = 0, key = 0x23E8, val = 1\<rparr> sending_MATRIX))) = 1"
proof -
  have v: "Matrix_IsCanAddressValid (CanAddress sending_MATRIX)"
    by (simp add: sending_MATRIX_def Matrix_IsCanAddressValid_def zeroed_CAN_ADDRESS_def)
  have s: "eventIndex (EventIndex sending_MATRIX) = 5"
    "frameIndex (Transmitter sending_MATRIX) = 0"
    "streamBufferWriteIndex (Transmitter sending_MATRIX) = 0"
    "enqueued (Transmitter sending_MATRIX) = []"
    "length (streamBuffer (Transmitter sending_MATRIX)) = 40"
    by (simp_all add: sending_MATRIX_def zeroed_MATRIX_def zeroed_TRANSMITTER_def)
  have p: "KeyPrefix_InputStatus = Key_GetPrefix (key \<lparr>flags = 0, address = 0, key = 0x43E8, val = 1\<rparr>)"
    "KeyPrefix_InputStatus \<noteq> Key_GetPrefix (key \<lparr>flags = 0, address = 0, key = 0x23E8, val = 1\<rparr>)"
    "KeyPrefix_OutputStatus = Key_GetPrefix (0x23E8 :: 16 word)"
    "KeyPrefix_PatternSync \<noteq> Key_GetPrefix (0x23E8 :: 16 word)"
    "\<not> Key_IsLocalVariable 0x43E8"
    "Key_ValueSize 0x43E8 = 1" "Key_ValueSize 0x23E8 = 1"
    by (simp_all add: Key_GetPrefix_def Key_IsLocalVariable_def Key_ValueSize_def)
  note a = C9_input_status_sent_three_times
             [of sending_MATRIX "\<lparr>flags = 0, address = 0, key = 0x43E8, val = 1\<rparr>", OF disjI1 [OF v]]
  note b = C9_input_status_sent_three_times
             [of sending_MATRIX "\<lparr>flags = 0, address = 0, key = 0x23E8, val = 1\<rparr>", OF disjI1 [OF v]]
  have a': "eventIndex (EventIndex (snd (Matrix_PrivateSendCanToken
        \<lparr>flags = 0, address = 0, key = 0x43E8, val = 1\<rparr> sending_MATRIX))) = 6"
    "map (\<lambda>f. (tx_frameIndex f, id_isEvent (tx_id f), id_frameType (tx_id f), tx_data f))
        (enqueued (Transmitter (snd (Matrix_PrivateSendCanToken
           \<lparr>flags = 0, address = 0, key = 0x43E8, val = 1\<rparr> sending_MATRIX))))
      = [(0, True, MATRIX_MESSAGE_FRAME_TYPE_SINGLE, [6, 0x43, 0xE8, 1]),
         (1, True, MATRIX_MESSAGE_FRAME_TYPE_SINGLE, [6, 0x43, 0xE8, 1]),
         (2, True, MATRIX_MESSAGE_FRAME_TYPE_SINGLE, [6, 0x43, 0xE8, 1])]"
    "map (\<lambda>i. streamBuffer (Transmitter (snd (Matrix_PrivateSendCanToken
           \<lparr>flags = 0, address = 0, key = 0x43E8, val = 1\<rparr> sending_MATRIX))) ! i) [0, 1, 2]
      = enqueued (Transmitter (snd (Matrix_PrivateSendCanToken
           \<lparr>flags = 0, address = 0, key = 0x43E8, val = 1\<rparr> sending_MATRIX)))"
    "streamBufferWriteIndex (Transmitter (snd (Matrix_PrivateSendCanToken
           \<lparr>flags = 0, address = 0, key = 0x43E8, val = 1\<rparr> sending_MATRIX))) = 3"
    using a p(1) s(5) by (simp_all add: s(1-4) p(6) word_le_nat_alt)
  have b': "eventIndex (EventIndex (snd (Matrix_PrivateSendCanToken
        \<lparr>flags = 0, address = 0, key = 0x23E8, val = 1\<rparr> sending_MATRIX))) = 5"
    "map (\<lambda>f. (tx_frameIndex f, id_isEvent (tx_id f), id_frameType (tx_id f), tx_data f))
        (enqueued (Transmitter (snd (Matrix_PrivateSendCanToken
           \<lparr>flags = 0, address = 0, key = 0x23E8, val = 1\<rparr> sending_MATRIX))))
      = [(0, True, MATRIX_MESSAGE_FRAME_TYPE_SINGLE, [5, 0x23, 0xE8, 1])]"
    "streamBufferWriteIndex (Transmitter (snd (Matrix_PrivateSendCanToken
           \<lparr>flags = 0, address = 0, key = 0x23E8, val = 1\<rparr> sending_MATRIX))) = 1"
    using b p(2,3,4) by (simp_all add: s(1-4) p(7) word_le_nat_alt)
  show ?thesis using v p(1,2,5) s(1) a' b' by simp
qed

section \<open>Pattern sync between nodes\<close>

lemma restart_root_fields:
  assumes "i < length (Sequencers c)" and "patternStack (Sequencers c ! i) \<noteq> []"
  shows "patternStackIndex (Sequencers (restart_root now i c) ! i) = 0"
    and "currentPosition (patternStack (Sequencers (restart_root now i c) ! i) ! 0)
         = firstStepPosition (patternStack (Sequencers c ! i) ! 0)"
    and "stepTime (Sequencers (restart_root now i c) ! i) = now"
  using assms by (simp_all add: restart_root_def Let_def)

lemma sync_sequencer_restarts:
  assumes "sequencer_running (Sequencers c ! i)"
    and "unat (address token) < MATRIX_TOKEN_SEQUENCER_0_NETWORK_ADDRESS + i"
    and "syncRangeTop (Sequencers c ! i) \<noteq> SYNC_RANGE_NONE"
    and "sync_matches flash v (Sequencers c ! i)"
  shows "sync_sequencer NextStep flash now token v i c = NextStep i (restart_root now i c)"
  using assms by (simp add: sync_sequencer_def Let_def)

lemma sync_sequencer_skips:
  assumes "\<not> sequencer_running (Sequencers c ! i)
           \<or> syncRangeTop (Sequencers c ! i) = SYNC_RANGE_NONE
           \<or> \<not> sync_matches flash v (Sequencers c ! i)"
  shows "sync_sequencer NextStep flash now token v i c = c"
  using assms by (auto simp: sync_sequencer_def Let_def)

lemma Key_WithoutPrefix_sync_dispatch:
  assumes "Key_WithoutPrefix (key token) = KeyTokenSequencerSync"
  shows "MatrixTokenSequencerController_TokenIn NextStep otherCases flash own now token ctl
         = (if address token \<le> own then ctl
            else fold (sync_sequencer NextStep flash now token (val token AND NOT 0xE000))
                   [0 ..< MTS_NUM_TOKEN_SEQUENCERS] ctl)"
  using assms by (simp add: MatrixTokenSequencerController_TokenIn_def Let_def)

text \<open>
  C3, as amended. For a token whose key without prefix is \<open>KeyTokenSequencerSync\<close>: a
  node ignores it when the sender's address is lower than or equal to its own address;
  when the sender's address is higher, the node runs the loop body over its six
  sequencers, and in that body each running sequencer whose network address is above the
  sender's, whose sync range is not None, and for which the enumeration lies in the sync
  range (or the range bottom is Exact and the enumeration equals the running root
  pattern) is restarted: stack index 0, current position at the first step, step time
  now, and then \<open>NextStep\<close>. So of two nodes running the same pattern it is the
  lower-addressed one that restarts on the other's sync.
\<close>

theorem C3_sync_lower_address_yields_to_higher:
  assumes "Key_WithoutPrefix (key token) = KeyTokenSequencerSync"
  shows "(address token \<le> own \<longrightarrow>
            MatrixTokenSequencerController_TokenIn NextStep otherCases flash own now token ctl = ctl)
       \<and> (own < address token \<longrightarrow>
            MatrixTokenSequencerController_TokenIn NextStep otherCases flash own now token ctl
            = fold (sync_sequencer NextStep flash now token (val token AND NOT 0xE000))
                [0 ..< MTS_NUM_TOKEN_SEQUENCERS] ctl)
       \<and> (sequencer_running (Sequencers c ! i)
            \<and> unat (address token) < MATRIX_TOKEN_SEQUENCER_0_NETWORK_ADDRESS + i
            \<and> syncRangeTop (Sequencers c ! i) \<noteq> SYNC_RANGE_NONE
            \<and> sync_matches flash v (Sequencers c ! i) \<longrightarrow>
            sync_sequencer NextStep flash now token v i c = NextStep i (restart_root now i c))
       \<and> (i < length (Sequencers c) \<and> patternStack (Sequencers c ! i) \<noteq> [] \<longrightarrow>
            patternStackIndex (Sequencers (restart_root now i c) ! i) = 0
            \<and> currentPosition (patternStack (Sequencers (restart_root now i c) ! i) ! 0)
                = firstStepPosition (patternStack (Sequencers c ! i) ! 0)
            \<and> stepTime (Sequencers (restart_root now i c) ! i) = now)"
proof (intro conjI impI)
  assume "address token \<le> own"
  then show "MatrixTokenSequencerController_TokenIn NextStep otherCases flash own now token ctl = ctl"
    by (simp add: Key_WithoutPrefix_sync_dispatch [OF assms])
next
  assume "own < address token"
  then show "MatrixTokenSequencerController_TokenIn NextStep otherCases flash own now token ctl
            = fold (sync_sequencer NextStep flash now token (val token AND NOT 0xE000))
                [0 ..< MTS_NUM_TOKEN_SEQUENCERS] ctl"
    by (simp add: Key_WithoutPrefix_sync_dispatch [OF assms])
next
  assume "sequencer_running (Sequencers c ! i)
            \<and> unat (address token) < MATRIX_TOKEN_SEQUENCER_0_NETWORK_ADDRESS + i
            \<and> syncRangeTop (Sequencers c ! i) \<noteq> SYNC_RANGE_NONE
            \<and> sync_matches flash v (Sequencers c ! i)"
  then show "sync_sequencer NextStep flash now token v i c = NextStep i (restart_root now i c)"
    by (intro sync_sequencer_restarts) simp_all
next
  assume a: "i < length (Sequencers c) \<and> patternStack (Sequencers c ! i) \<noteq> []"
  then show "patternStackIndex (Sequencers (restart_root now i c) ! i) = 0"
    by (simp add: restart_root_fields)
  from a show "currentPosition (patternStack (Sequencers (restart_root now i c) ! i) ! 0)
                = firstStepPosition (patternStack (Sequencers c ! i) ! 0)"
    by (simp add: restart_root_fields)
  from a show "stepTime (Sequencers (restart_root now i c) ! i) = now"
    by (simp add: restart_root_fields)
qed

lemma s6_root_enum: "GetRootPatternEnum s6_flash s6_running = 1030"
  by (simp add: GetRootPatternEnum_def s6_running_def s6_pattern_def s6_flash_def)

lemma s6_matches: "sync_matches s6_flash 1030 s6_running"
  by (simp add: sync_matches_def s6_root_enum) (simp add: s6_running_def)

lemma s6_sync_token:
  "Key_WithoutPrefix (key \<lparr>flags = 0, address = a, key = 5001, val = 1030\<rparr>) = KeyTokenSequencerSync"
  "val \<lparr>flags = 0, address = a, key = 5001, val = 1030\<rparr> AND NOT 0xE000 = 1030"
  by (simp_all add: Key_WithoutPrefix_def)

text \<open>
  C3 as stated fails in the specification's scenario S6 (nodes 5 and 17, both running
  pattern 1030 with range Exact, three steps into the pattern): node 17 is left unchanged
  by node 5's sync, its current position stays away from the first step, while node 5
  goes back to the first step on node 17's sync.
\<close>

theorem C3_counterexample:
  "MatrixTokenSequencerController_TokenIn (\<lambda>i c. c) (\<lambda>t c. c) s6_flash 17 7000
      \<lparr>flags = 0, address = 5, key = 5001, val = 1030\<rparr> s6_controller = s6_controller
   \<and> currentPosition (patternStack (Sequencers s6_controller ! 0) ! 0) = Some 30
   \<and> firstStepPosition (patternStack (Sequencers s6_controller ! 0) ! 0) = Some 9
   \<and> currentPosition (patternStack (Sequencers
        (MatrixTokenSequencerController_TokenIn (\<lambda>i c. c) (\<lambda>t c. c) s6_flash 5 7000
           \<lparr>flags = 0, address = 17, key = 5001, val = 1030\<rparr> s6_controller) ! 0) ! 0) = Some 9"
proof -
  have stopped: "\<not> sequencer_running s6_stopped"
    by (simp add: sequencer_running_def s6_stopped_def s6_running_def)
  have running: "sequencer_running s6_running"
    by (simp add: sequencer_running_def s6_running_def)
  have top: "syncRangeTop s6_running \<noteq> 0" by (simp add: s6_running_def)
  let ?tok = "\<lparr>flags = 0, address = 17, key = 5001, val = 1030\<rparr> :: TOKEN"
  have r: "sync_sequencer (\<lambda>i c. c) s6_flash 7000 ?tok 1030 0 s6_controller
           = restart_root 7000 0 s6_controller"
    using running top s6_matches
    by (intro sync_sequencer_restarts) (simp_all add: s6_controller_def)
  have rr: "restart_root 7000 0 s6_controller
      = \<lparr>Sequencers = [s6_running\<lparr>patternStackIndex := 0,
            patternStack := [s6_pattern\<lparr>currentPosition := Some 9\<rparr>, s6_pattern, s6_pattern],
            stepTime := 7000\<rparr>, s6_stopped, s6_stopped, s6_stopped, s6_stopped, s6_stopped]\<rparr>"
    by (simp add: restart_root_def s6_controller_def Let_def)
       (simp add: s6_running_def s6_pattern_def)
  have skip: "sync_sequencer (\<lambda>i c. c) s6_flash 7000 ?tok 1030 i (restart_root 7000 0 s6_controller)
              = restart_root 7000 0 s6_controller"
    if "i \<in> {1, 2, 3, 4, 5}" for i
    using that stopped by (intro sync_sequencer_skips) (auto simp: rr)
  have up: "[0 ..< MTS_NUM_TOKEN_SEQUENCERS] = [0, 1, 2, 3, 4, 5]"
    by (simp add: upt_rec)
  have "MatrixTokenSequencerController_TokenIn (\<lambda>i c. c) (\<lambda>t c. c) s6_flash 5 7000 ?tok s6_controller
        = (if address ?tok \<le> 5 then s6_controller
           else fold (sync_sequencer (\<lambda>i c. c) s6_flash 7000 ?tok (val ?tok AND NOT 0xE000))
                  [0 ..< MTS_NUM_TOKEN_SEQUENCERS] s6_controller)"
    by (rule Key_WithoutPrefix_sync_dispatch) (simp add: Key_WithoutPrefix_def)
  then have "MatrixTokenSequencerController_TokenIn (\<lambda>i c. c) (\<lambda>t c. c) s6_flash 5 7000 ?tok s6_controller
        = restart_root 7000 0 s6_controller"
    unfolding up by (simp add: r skip)
  moreover have "MatrixTokenSequencerController_TokenIn (\<lambda>i c. c) (\<lambda>t c. c) s6_flash 17 7000
      \<lparr>flags = 0, address = 5, key = 5001, val = 1030\<rparr> s6_controller = s6_controller"
    by (subst Key_WithoutPrefix_sync_dispatch) (simp_all add: Key_WithoutPrefix_def)
  ultimately show ?thesis
    by (simp add: rr) (simp add: s6_controller_def s6_running_def s6_pattern_def)
qed

theorem C3_witness:
  "Key_WithoutPrefix (key \<lparr>flags = 0, address = 17, key = 5001, val = 1030\<rparr>) = KeyTokenSequencerSync
   \<and> (5 :: 8 word) < address \<lparr>flags = 0, address = 17, key = 5001, val = 1030\<rparr>
   \<and> MatrixTokenSequencerController_TokenIn (\<lambda>i c. c) (\<lambda>t c. c) s6_flash 5 7000
        \<lparr>flags = 0, address = 17, key = 5001, val = 1030\<rparr> s6_controller
      = fold (sync_sequencer (\<lambda>i c. c) s6_flash 7000 \<lparr>flags = 0, address = 17, key = 5001, val = 1030\<rparr>
               (val \<lparr>flags = 0, address = 17, key = 5001, val = 1030\<rparr> AND NOT 0xE000))
          [0 ..< MTS_NUM_TOKEN_SEQUENCERS] s6_controller
   \<and> sequencer_running (Sequencers s6_controller ! 0)
   \<and> sync_matches s6_flash 1030 (Sequencers s6_controller ! 0)
   \<and> sync_sequencer (\<lambda>i c. c) s6_flash 7000 \<lparr>flags = 0, address = 17, key = 5001, val = 1030\<rparr> 1030 0
        s6_controller = restart_root 7000 0 s6_controller
   \<and> currentPosition (patternStack (Sequencers (restart_root 7000 0 s6_controller) ! 0) ! 0)
      = firstStepPosition (patternStack (Sequencers s6_controller ! 0) ! 0)"
proof -
  have a: "sequencer_running (Sequencers s6_controller ! 0)"
    by (simp add: s6_controller_def sequencer_running_def s6_running_def)
  have b: "sync_matches s6_flash 1030 (Sequencers s6_controller ! 0)"
    using s6_matches by (simp add: s6_controller_def)
  have c: "syncRangeTop (Sequencers s6_controller ! 0) \<noteq> 0"
    by (simp add: s6_controller_def s6_running_def)
  have d: "0 < length (Sequencers s6_controller)"
    "patternStack (Sequencers s6_controller ! 0) \<noteq> []"
    by (simp_all add: s6_controller_def s6_running_def)
  show ?thesis
    using C3_sync_lower_address_yields_to_higher
      [where token = "\<lparr>flags = 0, address = 17, key = 5001, val = 1030\<rparr>" and own = 5
         and NextStep = "\<lambda>i c. c" and otherCases = "\<lambda>t c. c" and flash = s6_flash and now = 7000
         and ctl = s6_controller and c = s6_controller and i = 0 and v = 1030]
      a b c d
    by (simp add: Key_WithoutPrefix_def)
qed

section \<open>The receiver tests the checksum of a multi-frame message before dispatch\<close>

lemma GetNextMessage_complete:
  assumes "GetNextMessage sender fi nf0 nb0 frames = (nf, nb, adv, True)"
    and "1 < nf"
  shows "0 < adv \<and> adv \<le> length frames \<and> nf = nf0 + adv
       \<and> nb = nb0 + sum_list (map dataSize (take adv frames))
       \<and> frameFlags (frames ! (adv - 1)) = MR_FRAME_FLAG_LAST
       \<and> (\<forall>i < adv - 1. frameFlags (frames ! i) \<noteq> MR_FRAME_FLAG_SINGLE
                         \<and> frameFlags (frames ! i) \<noteq> MR_FRAME_FLAG_LAST)"
  using assms
proof (induction frames arbitrary: fi nf0 nb0 adv)
  case Nil
  then show ?case by simp
next
  case (Cons f fs)
  show ?case
  proof (cases "frameFlags f = MR_FRAME_FLAG_SINGLE \<or> frameFlags f = MR_FRAME_FLAG_LAST")
    case True
    with Cons.prems show ?thesis by (auto split: if_splits)
  next
    case False
    from Cons.prems(1) False obtain adv' where
      r: "GetNextMessage sender ((fi + 1) AND 0x1F) (nf0 + 1) (nb0 + dataSize f) fs
          = (nf, nb, adv', True)" and adv: "adv = adv' + 1"
      by (auto split: if_splits prod.splits)
    from Cons.IH [OF r Cons.prems(2)]
    have ih: "0 < adv'" "adv' \<le> length fs" "nf = nf0 + 1 + adv'"
      "nb = nb0 + dataSize f + sum_list (map dataSize (take adv' fs))"
      "frameFlags (fs ! (adv' - 1)) = MR_FRAME_FLAG_LAST"
      "\<forall>i < adv' - 1. frameFlags (fs ! i) \<noteq> MR_FRAME_FLAG_SINGLE
                         \<and> frameFlags (fs ! i) \<noteq> MR_FRAME_FLAG_LAST"
      by simp_all
    have "\<forall>i < adv - 1. frameFlags ((f # fs) ! i) \<noteq> MR_FRAME_FLAG_SINGLE
                         \<and> frameFlags ((f # fs) ! i) \<noteq> MR_FRAME_FLAG_LAST"
    proof (intro allI impI)
      fix i assume "i < adv - 1"
      then show "frameFlags ((f # fs) ! i) \<noteq> MR_FRAME_FLAG_SINGLE
                         \<and> frameFlags ((f # fs) ! i) \<noteq> MR_FRAME_FLAG_LAST"
        using False ih(6) adv by (cases i) auto
    qed
    then show ?thesis using ih adv by (simp add: nth_Cons')
  qed
qed

lemma DispatchMessage_delivers:
  assumes "delivers (fst (DispatchMessage m messageFrame nf nb bytes))" and "nf \<noteq> 1"
  shows "Matrix_IsMessageChecksumValid bytes nb = Some True"
proof (cases "Matrix_IsMessageChecksumValid bytes nb")
  case None
  with assms show ?thesis by (simp add: DispatchMessage_def delivers_def)
next
  case (Some b)
  with assms show ?thesis by (cases b) (simp_all add: DispatchMessage_def delivers_def)
qed

lemma checksum_valid_crc_matches:
  "Matrix_IsMessageChecksumValid bytes n = Some True \<Longrightarrow> crc_matches bytes n"
  by (auto simp: Matrix_IsMessageChecksumValid_def crc_matches_def Let_def split: if_splits)

text \<open>
  The checked path. When one pass of the receiver over a run of frames ends with a
  frame count above one and hands the message to the token callback, the FTP client,
  the FTP server or the codec decompressor, then the run is complete, ends at a LAST
  frame with no SINGLE or LAST frame before it, and the last two of its bytes, high byte
  first, are the CRC-16 of all the bytes before them.
\<close>

lemma counted_multi_frame_dispatch_requires_crc:
  assumes "GetNextMessage (senderAddress messageFrame) (rx_frameIndex messageFrame) 0 0
             (messageFrame # rest) = (nf, nb, adv, complete)"
    and "1 < nf"
    and "delivers (fst (ProcessMessageAt m (messageFrame # rest)))"
  shows "crc_matches (message_memory adv (messageFrame # rest)) nb
       \<and> adv = nf
       \<and> nb = sum_list (map dataSize (take nf (messageFrame # rest)))
       \<and> frameFlags ((messageFrame # rest) ! (nf - 1)) = MR_FRAME_FLAG_LAST
       \<and> (\<forall>i < nf - 1. frameFlags ((messageFrame # rest) ! i) \<noteq> MR_FRAME_FLAG_SINGLE
                         \<and> frameFlags ((messageFrame # rest) ! i) \<noteq> MR_FRAME_FLAG_LAST)"
proof -
  have c: complete
    using assms(1,3) by (cases complete) (simp_all add: ProcessMessageAt_def delivers_def)
  then have d: "delivers (fst (DispatchMessage m messageFrame nf nb
                  (message_memory adv (messageFrame # rest))))"
    using assms(1,3) by (simp add: ProcessMessageAt_def)
  have "Matrix_IsMessageChecksumValid (message_memory adv (messageFrame # rest)) nb = Some True"
  proof (rule DispatchMessage_delivers [OF d])
    show "nf \<noteq> 1" using assms(2) by simp
  qed
  then have "crc_matches (message_memory adv (messageFrame # rest)) nb"
    by (rule checksum_valid_crc_matches)
  moreover from GetNextMessage_complete [OF assms(1) [unfolded c [THEN eqTrueI]] assms(2)]
  have "adv = nf"
    "nb = sum_list (map dataSize (take adv (messageFrame # rest)))"
    "frameFlags ((messageFrame # rest) ! (adv - 1)) = MR_FRAME_FLAG_LAST"
    "\<forall>i < adv - 1. frameFlags ((messageFrame # rest) ! i) \<noteq> MR_FRAME_FLAG_SINGLE
                         \<and> frameFlags ((messageFrame # rest) ! i) \<noteq> MR_FRAME_FLAG_LAST"
    by simp_all
  ultimately show ?thesis by simp
qed


lemma example_GetNextMessage:
  "GetNextMessage 9 4 0 0 [example_body_frame, example_last_frame] = (2, 12, 2, True)"
  by (simp add: example_body_frame_def example_last_frame_def)

lemma example_memory:
  "message_memory 2 [example_body_frame, example_last_frame]
     = [0x01, 0x23, 0xE8, 0x64, 0x23, 0xEA, 0x32, 0x27, 0xD0, 0x01, 0xEB, 0xCA, 0, 0, 0, 0]"
  by (simp add: message_memory_def example_body_frame_def example_last_frame_def)

lemma crc_bits_numeral:
  "crc_bits (numeral k) byte c =
     crc_bits (pred_numeral k) (drop_bit 1 byte)
       (if (byte XOR ucast c) AND 1 \<noteq> 0 then drop_bit 1 c XOR 0xA001 else drop_bit 1 c)"
  by (simp add: numeral_eq_Suc)

lemma example_crc:
  "Matrix_ComputeCRC16 [0x01, 0x23, 0xE8, 0x64, 0x23, 0xEA, 0x32, 0x27, 0xD0, 0x01] = 0xEBCA"
proof -
  have s0: "Matrix_AddByteToCRC16 0x01 0x0000 = 0xC0C1"
    by (simp add: Matrix_AddByteToCRC16_def crc_bits_numeral)
  have s1: "Matrix_AddByteToCRC16 0x23 0xC0C1 = 0x4940"
    by (simp add: Matrix_AddByteToCRC16_def crc_bits_numeral)
  have s2: "Matrix_AddByteToCRC16 0xE8 0x4940 = 0xBE48"
    by (simp add: Matrix_AddByteToCRC16_def crc_bits_numeral)
  have s3: "Matrix_AddByteToCRC16 0x64 0xBE48 = 0xDDBF"
    by (simp add: Matrix_AddByteToCRC16_def crc_bits_numeral)
  have s4: "Matrix_AddByteToCRC16 0x23 0xDDBF = 0x69DD"
    by (simp add: Matrix_AddByteToCRC16_def crc_bits_numeral)
  have s5: "Matrix_AddByteToCRC16 0xEA 0x69DD = 0xD628"
    by (simp add: Matrix_AddByteToCRC16_def crc_bits_numeral)
  have s6: "Matrix_AddByteToCRC16 0x32 0xD628 = 0xCB57"
    by (simp add: Matrix_AddByteToCRC16_def crc_bits_numeral)
  have s7: "Matrix_AddByteToCRC16 0x27 0xCB57 = 0xE4CA"
    by (simp add: Matrix_AddByteToCRC16_def crc_bits_numeral)
  have s8: "Matrix_AddByteToCRC16 0xD0 0xE4CA = 0xCB65"
    by (simp add: Matrix_AddByteToCRC16_def crc_bits_numeral)
  have s9: "Matrix_AddByteToCRC16 0x01 0xCB65 = 0xEBCA"
    by (simp add: Matrix_AddByteToCRC16_def crc_bits_numeral)
  have "foldl (\<lambda>c b. Matrix_AddByteToCRC16 b c) 0
          [0x01, 0x23, 0xE8, 0x64, 0x23, 0xEA, 0x32, 0x27, 0xD0, 0x01] = 0xEBCA"
    unfolding foldl.simps s0 s1 s2 s3 s4 s5 s6 s7 s8 s9 by (rule refl)
  then show ?thesis by (simp add: Matrix_ComputeCRC16_def)
qed

lemma example_checksum:
  "Matrix_IsMessageChecksumValid
     [0x01, 0x23, 0xE8, 0x64, 0x23, 0xEA, 0x32, 0x27, 0xD0, 0x01, 0xEB, 0xCA, 0, 0, 0, 0] 12
   = Some True"
  by (simp add: Matrix_IsMessageChecksumValid_def Let_def example_crc)

lemma example_delivers:
  "fst (ProcessMessageAt zeroed_MATRIX [example_body_frame, example_last_frame])
     = ToDecompress [0x23, 0xE8, 0x64, 0x23, 0xEA, 0x32, 0x27, 0xD0, 0x01] 9"
proof -
  have s: "senderAddress example_body_frame = 9" "rx_frameIndex example_body_frame = 4"
    "isEvent example_body_frame"
    by (simp_all add: example_body_frame_def)
  show ?thesis
    unfolding ProcessMessageAt_def list.case s example_GetNextMessage prod.case if_True
      DispatchMessage_def example_memory example_checksum
    by (simp add: s Let_def Key_IsFtpResponse_def Key_IsFtpRequest_def)
qed

lemma counted_multi_frame_dispatch_example:
  "GetNextMessage (senderAddress example_body_frame) (rx_frameIndex example_body_frame) 0 0
     [example_body_frame, example_last_frame] = (2, 12, 2, True)
   \<and> delivers (fst (ProcessMessageAt zeroed_MATRIX [example_body_frame, example_last_frame]))
   \<and> crc_matches (message_memory 2 [example_body_frame, example_last_frame]) 12
   \<and> frameFlags ([example_body_frame, example_last_frame] ! 1) = MR_FRAME_FLAG_LAST"
proof -
  have s: "senderAddress example_body_frame = 9" "rx_frameIndex example_body_frame = 4"
    by (simp_all add: example_body_frame_def)
  have a: "GetNextMessage (senderAddress example_body_frame) (rx_frameIndex example_body_frame)
     0 0 [example_body_frame, example_last_frame] = (2, 12, 2, True)"
    unfolding s by (rule example_GetNextMessage)
  have b: "delivers (fst (ProcessMessageAt zeroed_MATRIX [example_body_frame, example_last_frame]))"
    unfolding example_delivers by (simp add: delivers_def)
  from counted_multi_frame_dispatch_requires_crc [OF a _ b] a b show ?thesis by simp
qed

lemma example_crc_two:
  "Matrix_ComputeCRC16 [0x01, 0x23] = 0x4940"
proof -
  have s0: "Matrix_AddByteToCRC16 0x01 0x0000 = 0xC0C1"
    by (simp add: Matrix_AddByteToCRC16_def crc_bits_numeral)
  have s1: "Matrix_AddByteToCRC16 0x23 0xC0C1 = 0x4940"
    by (simp add: Matrix_AddByteToCRC16_def crc_bits_numeral)
  have "foldl (\<lambda>c b. Matrix_AddByteToCRC16 b c) 0 [0x01, 0x23] = 0x4940"
    unfolding foldl.simps s0 s1 by (rule refl)
  then show ?thesis by (simp add: Matrix_ComputeCRC16_def)
qed

lemma body_then_single_is_one_frame:
  "GetNextMessage 9 4 0 0 [example_body_frame, example_single_frame] = (1, 4, 2, True)"
  by (simp add: example_body_frame_def example_single_frame_def)

lemma body_then_single_memory:
  "message_memory 2 [example_body_frame, example_single_frame]
     = [0x01, 0x23, 0xE8, 0x64, 0x23, 0xEA, 0x32, 0x27, 0xD0, 0x01, 0x00, 0x00, 0, 0, 0, 0]"
  by (simp add: message_memory_def example_body_frame_def example_single_frame_def)

lemma body_then_single_received:
  "received_bytes 2 [example_body_frame, example_single_frame]
     = [0x01, 0x23, 0xE8, 0x64, 0x23, 0xEA, 0x32, 0x27, 0xD0, 0x01, 0x00, 0x00]"
  by (simp add: received_bytes_def example_body_frame_def example_single_frame_def)

lemma body_then_single_dispatch:
  "fst (ProcessMessageAt zeroed_MATRIX [example_body_frame, example_single_frame])
   = ToDecompress [0x23, 0xE8, 0x64] 9"
proof -
  have s: "senderAddress example_body_frame = 9" "rx_frameIndex example_body_frame = 4"
    "isEvent example_body_frame"
    by (simp_all add: example_body_frame_def)
  show ?thesis
    unfolding ProcessMessageAt_def list.case s body_then_single_is_one_frame prod.case if_True
      DispatchMessage_def body_then_single_memory
    by (simp add: s Let_def Key_IsFtpResponse_def Key_IsFtpRequest_def)
qed

text \<open>
  C2 fails in the code. A BODY frame directly followed by an in-sequence SINGLE frame
  of the same sender: the walk counts the BODY frame, then sets the frame count to 1 at
  the SINGLE frame and consumes both frames; no checksum is tested for a count of 1,
  and the bytes dispatched are read at the first frame walked. So three payload bytes
  of the BODY frame reach the codec decompressor, although the twelve bytes received in
  the two frames do not end in their CRC-16, and neither do the four bytes the
  dispatch takes for the message.
\<close>

theorem C2_counterexample:
  "frameFlags example_body_frame = MR_FRAME_FLAG_BODY
   \<and> frameFlags example_single_frame = MR_FRAME_FLAG_SINGLE
   \<and> GetNextMessage (senderAddress example_body_frame) (rx_frameIndex example_body_frame) 0 0
        [example_body_frame, example_single_frame] = (1, 4, 2, True)
   \<and> fst (ProcessMessageAt zeroed_MATRIX [example_body_frame, example_single_frame])
        = ToDecompress [0x23, 0xE8, 0x64] 9
   \<and> take 3 (drop 1 (rx_data example_body_frame)) = [0x23, 0xE8, 0x64]
   \<and> Matrix_IsMessageChecksumValid
        (received_bytes 2 [example_body_frame, example_single_frame]) 12 = Some False
   \<and> \<not> crc_matches (received_bytes 2 [example_body_frame, example_single_frame]) 12
   \<and> Matrix_IsMessageChecksumValid
        (message_memory 2 [example_body_frame, example_single_frame]) 4 = Some False"
proof -
  have s: "senderAddress example_body_frame = 9" "rx_frameIndex example_body_frame = 4"
    "frameFlags example_body_frame = MR_FRAME_FLAG_BODY"
    "take 3 (drop 1 (rx_data example_body_frame)) = [0x23, 0xE8, 0x64]"
    by (simp_all add: example_body_frame_def)
  have f: "frameFlags example_single_frame = MR_FRAME_FLAG_SINGLE"
    by (simp add: example_single_frame_def)
  have c12: "Matrix_IsMessageChecksumValid
        (received_bytes 2 [example_body_frame, example_single_frame]) 12 = Some False"
    unfolding body_then_single_received
    by (simp add: Matrix_IsMessageChecksumValid_def Let_def example_crc)
  have m12: "\<not> crc_matches (received_bytes 2 [example_body_frame, example_single_frame]) 12"
    unfolding body_then_single_received
    by (simp add: crc_matches_def example_crc)
  have c4: "Matrix_IsMessageChecksumValid
        (message_memory 2 [example_body_frame, example_single_frame]) 4 = Some False"
    unfolding body_then_single_memory
    by (simp add: Matrix_IsMessageChecksumValid_def Let_def example_crc_two)
  show ?thesis
    unfolding s f body_then_single_is_one_frame body_then_single_dispatch c12 c4
    using m12 by simp
qed

section \<open>The codec: what is compressed is what is decompressed\<close>

lemma next_status_token_length: "length (next_status_token p) \<le> length p - 1"
  unfolding next_status_token_def
  by (rule order_trans [OF length_dropWhile_le]) simp

lemma binary_bits_length:
  "binary_bits n bitn byte p = Some (out, bitn', byte', r) \<Longrightarrow> length r + n \<le> length p"
proof (induction n bitn byte p arbitrary: out rule: binary_bits.induct)
  case (3 n bitn byte t ts)
  have l: "length (next_status_token (t # ts)) \<le> length ts"
    using next_status_token_length [of "t # ts"] by simp
  show ?case
  proof (cases "bitn + 1 \<ge> 8")
    case True
    with 3(3) obtain out' where
      "binary_bits n 0 0 (next_status_token (t # ts)) = Some (out', bitn', byte', r)"
      by (auto simp: Let_def split: option.splits)
    from 3(1) [OF refl True this] l show ?thesis by simp
  next
    case False
    with 3(3) have "binary_bits n (bitn + 1)
        (if val (mtl_token t) \<noteq> 0 then byte OR push_bit bitn 1 else byte)
        (next_status_token (t # ts)) = Some (out, bitn', byte', r)"
      by (simp add: Let_def)
    from 3(2) [OF refl False this] l show ?thesis by simp
  qed
qed simp_all

lemma analog_values_length:
  "analog_values n valueSize p = Some (out, r) \<Longrightarrow> length r + n \<le> length p"
proof (induction n valueSize p arbitrary: out rule: analog_values.induct)
  case (3 n valueSize t ts)
  have l: "length (next_status_token (t # ts)) \<le> length ts"
    using next_status_token_length [of "t # ts"] by simp
  from 3(2) obtain out' where
    "analog_values n valueSize (next_status_token (t # ts)) = Some (out', r)"
    by (auto split: option.splits)
  from 3(1) [OF this] l show ?case by simp
qed simp_all

lemma compress_token_length:
  assumes "compress_token t ts = Some (out, p)"
  shows "length p \<le> length ts"
proof -
  have l: "length (next_status_token (t # ts)) \<le> length ts"
    using next_status_token_length [of "t # ts"] by simp
  show ?thesis
    using assms l
    by (auto simp: compress_token_def Let_def split: if_splits prod.splits option.splits
        dest!: binary_bits_length analog_values_length)
qed

termination compress_loop
proof (relation "measure length")
  fix t ts x2 out p
  assume "compress_token t ts = Some x2" and "(out, p) = x2"
  then have "length p \<le> length ts"
    using compress_token_length [of t ts out p] by simp
  then show "(p, t # ts) \<in> measure length" by simp
qed simp_all

lemma read_value_length:
  "read_value n v bytes = Some (v', r) \<Longrightarrow> length r \<le> length bytes"
  by (induction n v bytes rule: read_value.induct) (auto intro: le_SucI)

lemma analog_series_length:
  "analog_series n valueSize k a f bytes = (toks, Some r) \<Longrightarrow> length r \<le> length bytes"
proof (induction n arbitrary: k bytes toks)
  case (Suc n)
  then show ?case
    by (auto split: option.splits prod.splits dest!: read_value_length) fastforce
qed simp

lemma binary_series_length:
  "binary_series n bitIndex bitFlags v k a f bytes = (toks, Some r)
     \<Longrightarrow> length r \<le> length bytes"
proof (induction n arbitrary: bitIndex bitFlags k bytes toks)
  case (Suc n)
  then show ?case
    by (auto split: if_splits list.splits prod.splits intro: le_SucI)
qed simp

lemma decompress_token_length:
  assumes "decompress_token a f b bytes = (toks, Inr r)"
  shows "length r \<le> length bytes"
  using assms unfolding decompress_token_def Let_def
  by (auto split: if_splits list.splits option.splits prod.splits
      dest!: read_value_length analog_series_length binary_series_length)

termination decompress_loop
  by (relation "measure (\<lambda>(a, f, bytes). length bytes)")
    (auto dest!: decompress_token_length [OF sym])

declare series_scan.simps [simp del]

lemma read_value_bytes:
  "read_value n acc (value_bytes n v @ R) = Some (push_bit (8 * n) acc OR take_bit (8 * n) v, R)"
proof (induction n arbitrary: acc)
  case 0
  show ?case by simp
next
  case (Suc n)
  have "push_bit (8 * n) (push_bit 8 acc OR ucast (ucast (drop_bit (8 * n) v) :: 8 word))
          OR take_bit (8 * n) v
        = push_bit (8 * Suc n) acc OR take_bit (8 * Suc n) v"
    by (rule bit_eqI) (auto simp add: bit_simps add.commute [of 8])
  then show ?case by (simp add: Suc.IH)
qed

lemma read_value_value_bytes:
  "read_value n 0 (value_bytes n v @ R) = Some (take_bit (8 * n) v, R)"
  using read_value_bytes [of n 0 v R] by simp

lemma next_status_token_hd:
  "next_status_token p = c # cs \<Longrightarrow> should_broadcast c"
  unfolding next_status_token_def
  using hd_dropWhile [of "\<lambda>t. \<not> should_broadcast t" "tl p"] by auto

lemma next_status_token_filter:
  "filter should_broadcast (next_status_token (t # ts)) = filter should_broadcast ts"
proof -
  have "filter P (dropWhile (\<lambda>x. \<not> P x) xs) = filter P xs" for P :: "'a \<Rightarrow> bool" and xs
    by (induction xs) simp_all
  then show ?thesis by (simp add: next_status_token_def)
qed

lemma next_status_token_set: "set (next_status_token p) \<subseteq> set p"
proof -
  have "set (tl p) \<subseteq> set p" by (cases p) auto
  moreover have "set (dropWhile (\<lambda>t. \<not> should_broadcast t) (tl p)) \<subseteq> set (tl p)"
    by (auto dest: set_dropWhileD)
  ultimately show ?thesis unfolding next_status_token_def by blast
qed

lemma series_scan_series:
  assumes "series_scan valueSize na nb v k p = (na', nb', v')" and "na \<le> 31"
  shows "na \<le> na' \<and> na' \<le> 31
       \<and> length (visit (na' - na) (next_status_token p)) = na' - na
       \<and> map (\<lambda>x. key (mtl_token x)) (visit (na' - na) (next_status_token p))
           = map of_nat [k ..< k + (na' - na)]
       \<and> (\<forall>x \<in> set (visit (na' - na) (next_status_token p)).
             Key_ValueSize (key (mtl_token x)) = valueSize)
       \<and> (nb' < 32 \<longrightarrow> nb' = nb + (na' - na)
             \<and> (\<forall>x \<in> set (visit (na' - na) (next_status_token p)).
                   val (mtl_token x) = 0 \<or> val (mtl_token x) = v')
             \<and> (v \<noteq> 0 \<longrightarrow> v' = v))"
  using assms
proof (induction valueSize na nb v k p rule: series_scan.induct)
  case (1 valueSize na nb v k p)
  show ?case
  proof (cases "na < 32 - 1")
    case False
    with "1.prems" show ?thesis by (simp add: series_scan.simps)
  next
    case lt: True
    show ?thesis
    proof (cases "next_status_token p")
      case Nil
      with lt "1.prems" show ?thesis by (simp add: series_scan.simps)
    next
      case (Cons c cs)
      show ?thesis
      proof (cases "unat (key (mtl_token c)) \<noteq> k \<or> Key_ValueSize (key (mtl_token c)) \<noteq> valueSize")
        case True
        with lt Cons "1.prems" show ?thesis by (simp add: series_scan.simps)
      next
        case False
        define v1 where "v1 = (if v = 0 \<and> val (mtl_token c) \<noteq> 0 then val (mtl_token c) else v)"
        define nb1 where "nb1 = (if val (mtl_token c) = 0 \<or> val (mtl_token c) = v1 then nb + 1 else 32)"
        have r: "series_scan valueSize (na + 1) nb1 v1 (k + 1) (c # cs) = (na', nb', v')"
          using "1.prems"(1) lt Cons False
          by (subst (asm) series_scan.simps) (simp add: v1_def nb1_def Let_def)
        have ih: "na + 1 \<le> na' \<and> na' \<le> 31
           \<and> length (visit (na' - (na + 1)) (next_status_token (c # cs))) = na' - (na + 1)
           \<and> map (\<lambda>x. key (mtl_token x)) (visit (na' - (na + 1)) (next_status_token (c # cs)))
               = map of_nat [k + 1 ..< k + 1 + (na' - (na + 1))]
           \<and> (\<forall>x \<in> set (visit (na' - (na + 1)) (next_status_token (c # cs))).
                 Key_ValueSize (key (mtl_token x)) = valueSize)
           \<and> (nb' < 32 \<longrightarrow> nb' = nb1 + (na' - (na + 1))
                 \<and> (\<forall>x \<in> set (visit (na' - (na + 1)) (next_status_token (c # cs))).
                       val (mtl_token x) = 0 \<or> val (mtl_token x) = v')
                 \<and> (v1 \<noteq> 0 \<longrightarrow> v' = v1))"
        proof -
          have "na + 1 \<le> 31" using lt by simp
          from "1.IH" [OF lt Cons False refl refl r [unfolded nb1_def v1_def] this]
          show ?thesis unfolding nb1_def v1_def .
        qed
        obtain d where d: "na' - na = Suc d" "na' - (na + 1) = d"
          using ih by (cases "na' - na") auto
        have kc: "key (mtl_token c) = of_nat k" using False by auto
        have up: "[k ..< k + Suc d] = k # [k + 1 ..< k + 1 + d]"
          by (simp add: upt_conv_Cons)
        have vis: "visit (Suc d) (next_status_token p) = c # visit d (next_status_token (c # cs))"
          by (simp add: Cons)
        have nb1: "nb' < 32 \<Longrightarrow> nb1 = nb + 1 \<and> (val (mtl_token c) = 0 \<or> val (mtl_token c) = v1)"
          using ih d by (auto simp: nb1_def split: if_splits)
        show ?thesis
          unfolding d vis up
          using ih False kc nb1 unfolding d
          by (auto simp: v1_def split: if_splits)
      qed
    qed
  qed
qed


lemma visit_length_Cons:
  "length (visit (Suc n) p) = Suc n
     \<longleftrightarrow> (\<exists>t ts. p = t # ts \<and> length (visit n (next_status_token p)) = n)"
  by (cases p) auto

lemma analog_values_visit:
  "length (visit n p) = n \<Longrightarrow>
   analog_values n valueSize p
     = Some (concat (map (\<lambda>x. value_bytes valueSize (val (mtl_token x))) (visit n p)), advance n p)"
proof (induction n arbitrary: p)
  case 0
  show ?case by simp
next
  case (Suc n)
  from Suc.prems obtain t ts where p: "p = t # ts"
    and l: "length (visit n (next_status_token p)) = n"
    unfolding visit_length_Cons by blast
  show ?case using Suc.IH [OF l] by (simp add: p)
qed

lemma analog_series_tokens:
  assumes "map (\<lambda>x. key (mtl_token x)) X = map of_nat [kn ..< kn + length X]"
    and "\<forall>x \<in> set X. Key_ValueSize (key (mtl_token x)) = valueSize"
  shows "analog_series (length X) valueSize (of_nat kn) a f
           (concat (map (\<lambda>x. value_bytes valueSize (val (mtl_token x))) X) @ R)
         = (map (received a f) X, Some R)"
  using assms
proof (induction X arbitrary: kn)
  case Nil
  show ?case by simp
next
  case (Cons x X)
  have up: "[kn ..< kn + length (x # X)] = kn # [Suc kn ..< Suc kn + length X]"
    by (subst upt_rec) simp
  from Cons.prems(1) have k: "key (mtl_token x) = of_nat kn"
    and ks: "map (\<lambda>x. key (mtl_token x)) X = map of_nat [Suc kn ..< Suc kn + length X]"
    unfolding up by simp_all
  have "analog_series (length X) valueSize (of_nat (Suc kn)) a f
           (concat (map (\<lambda>x. value_bytes valueSize (val (mtl_token x))) X) @ R)
         = (map (received a f) X, Some R)"
    using Cons.prems(2) by (intro Cons.IH [OF ks]) simp
  then have ih: "analog_series (length X) valueSize (of_nat kn + 1) a f
           (concat (map (\<lambda>x. value_bytes valueSize (val (mtl_token x))) X) @ R)
         = (map (received a f) X, Some R)"
    by (simp add: add.commute)
  have vs: "Key_ValueSize (key (mtl_token x)) = valueSize" using Cons.prems(2) by simp
  have rx: "received a f x = \<lparr>flags = f, address = a, key = of_nat kn,
      val = take_bit (8 * valueSize) (val (mtl_token x))\<rparr>"
    using vs by (simp add: received_def k)
  show ?case
    by (simp add: read_value_value_bytes ih rx)
qed

lemma and_1_bit: "((w :: 16 word) AND 1 \<noteq> 0) = bit w 0"
  by (simp add: and_one_eq bit_0 odd_iff_mod_2_eq_one)

lemma flag_of_byte: "((ucast (b :: 8 word) :: 16 word) AND 1 \<noteq> 0) = bit b 0"
  by (simp only: and_1_bit) (simp add: bit_ucast_iff)

lemma flag_of_shifted:
  "i < 7 \<Longrightarrow> (drop_bit 1 (drop_bit i (ucast (B :: 8 word) :: 16 word)) AND 1 \<noteq> 0) = bit B (Suc i)"
  by (simp only: and_1_bit) (simp add: bit_drop_bit_eq bit_ucast_iff)

lemma binary_series_tokens:
  assumes "map (\<lambda>x. key (mtl_token x)) X = map of_nat [kn ..< kn + length X]"
    and "i < 7 \<longrightarrow> bitFlags = drop_bit i (ucast B)"
    and "\<forall>j < length X. bit ((B # bs) ! ((min i 7 + 1 + j) div 8)) ((min i 7 + 1 + j) mod 8)
            = (val (mtl_token (X ! j)) \<noteq> 0)"
    and "(min i 7 + length X) div 8 \<le> length bs"
  shows "binary_series (length X) i bitFlags v (of_nat kn) a f bs
         = (map (\<lambda>x. \<lparr>flags = f, address = a, key = key (mtl_token x),
                       val = (if val (mtl_token x) \<noteq> 0 then v else 0)\<rparr>) X,
            Some (drop ((min i 7 + length X) div 8) bs))"
  using assms
proof (induction X arbitrary: kn i bitFlags B bs)
  case Nil
  then show ?case by simp
next
  case (Cons x X)
  have up: "[kn ..< kn + length (x # X)] = kn # [Suc kn ..< Suc kn + length X]"
    by (subst upt_rec) simp
  from Cons.prems(1) have k: "key (mtl_token x) = of_nat kn"
    and ks: "map (\<lambda>x. key (mtl_token x)) X = map of_nat [Suc kn ..< Suc kn + length X]"
    unfolding up by simp_all
  show ?case
  proof (cases "i < 7")
    case True
    then have m: "min i 7 = i" "min (Suc i) 7 = Suc i" by simp_all
    have f0: "(drop_bit 1 bitFlags AND 1 \<noteq> 0) = (val (mtl_token x) \<noteq> 0)"
    proof -
      have "(drop_bit 1 bitFlags AND 1 \<noteq> 0) = bit B (Suc i)"
        using Cons.prems(2) True flag_of_shifted [of i B] by simp
      moreover have "bit ((B # bs) ! ((i + 1) div 8)) ((i + 1) mod 8) = (val (mtl_token x) \<noteq> 0)"
        using Cons.prems(3) [rule_format, of 0] m by simp
      moreover have "(i + 1) div 8 = 0" "(i + 1) mod 8 = Suc i" using True by simp_all
      ultimately show ?thesis by simp
    qed
    have ih: "binary_series (length X) (Suc i) (drop_bit 1 bitFlags) v (of_nat (Suc kn)) a f bs
         = (map (\<lambda>x. \<lparr>flags = f, address = a, key = key (mtl_token x),
                       val = (if val (mtl_token x) \<noteq> 0 then v else 0)\<rparr>) X,
            Some (drop ((min (Suc i) 7 + length X) div 8) bs))"
    proof (rule Cons.IH [OF ks, where B = B])
      show "Suc i < 7 \<longrightarrow> drop_bit 1 bitFlags = drop_bit (Suc i) (ucast B)"
        using Cons.prems(2) True by (simp add: drop_bit_drop_bit)
      show "\<forall>j<length X. bit ((B # bs) ! ((min (Suc i) 7 + 1 + j) div 8))
               ((min (Suc i) 7 + 1 + j) mod 8) = (val (mtl_token (X ! j)) \<noteq> 0)"
      proof (intro allI impI)
        fix j assume "j < length X"
        then show "bit ((B # bs) ! ((min (Suc i) 7 + 1 + j) div 8))
               ((min (Suc i) 7 + 1 + j) mod 8) = (val (mtl_token (X ! j)) \<noteq> 0)"
          using Cons.prems(3) [rule_format, of "Suc j"] m by simp
      qed
      show "(min (Suc i) 7 + length X) div 8 \<le> length bs"
        using Cons.prems(4) m by simp
    qed
    have ih': "binary_series (length X) (Suc i) (drop_bit (Suc 0) bitFlags) v (of_nat kn + 1) a f bs
         = (map (\<lambda>x. \<lparr>flags = f, address = a, key = key (mtl_token x),
                       val = (if val (mtl_token x) \<noteq> 0 then v else 0)\<rparr>) X,
            Some (drop ((Suc i + length X) div 8) bs))"
      using ih m by (simp add: add.commute)
    show ?thesis
      using True f0 m by (simp add: k ih' del: drop_bit_Suc)
  next
    case False
    then have m: "min i 7 = 7" by simp
    from Cons.prems(4) m obtain b bs' where bs: "bs = b # bs'"
      by (cases bs) simp_all
    have f0: "((ucast b :: 16 word) AND 1 \<noteq> 0) = (val (mtl_token x) \<noteq> 0)"
      using Cons.prems(3) [rule_format, of 0] m by (simp add: bs flag_of_byte)
    have ih: "binary_series (length X) 0 (ucast b) v (of_nat (Suc kn)) a f bs'
         = (map (\<lambda>x. \<lparr>flags = f, address = a, key = key (mtl_token x),
                       val = (if val (mtl_token x) \<noteq> 0 then v else 0)\<rparr>) X,
            Some (drop ((min 0 7 + length X) div 8) bs'))"
    proof (rule Cons.IH [OF ks, where B = b])
      show "0 < (7 :: nat) \<longrightarrow> (ucast b :: 16 word) = drop_bit 0 (ucast b)" by simp
      show "\<forall>j<length X. bit ((b # bs') ! ((min 0 7 + 1 + j) div 8))
               ((min 0 7 + 1 + j) mod 8) = (val (mtl_token (X ! j)) \<noteq> 0)"
      proof (intro allI impI)
        fix j assume j: "j < length X"
        have "(7 + 1 + Suc j) div 8 = Suc ((1 + j) div 8)" "(7 + 1 + Suc j) mod 8 = (1 + j) mod 8"
          by presburger+
        then show "bit ((b # bs') ! ((min 0 7 + 1 + j) div 8))
               ((min 0 7 + 1 + j) mod 8) = (val (mtl_token (X ! j)) \<noteq> 0)"
          using Cons.prems(3) [rule_format, of "Suc j"] j m by (simp add: bs)
      qed
      have "(7 + length (x # X)) div 8 = Suc (length X div 8)" by simp
      then show "(min 0 7 + length X) div 8 \<le> length bs'"
        using Cons.prems(4) m by (simp add: bs)
    qed
    have ih': "binary_series (length X) 0 (ucast b) v (of_nat kn + 1) a f bs'
         = (map (\<lambda>x. \<lparr>flags = f, address = a, key = key (mtl_token x),
                       val = (if val (mtl_token x) \<noteq> 0 then v else 0)\<rparr>) X,
            Some (drop (length X div 8) bs'))"
      using ih by (simp add: add.commute)
    have "(7 + length (x # X)) div 8 = Suc (length X div 8)" by simp
    then show ?thesis
      using False f0 m by (simp add: k bs ih')
  qed
qed


lemma bit_set_flag:
  "bit ((byte :: 8 word) OR 2 ^ i) m \<longleftrightarrow> bit byte m \<or> (m = i \<and> i < 8)"
  by (auto simp add: bit_simps)

lemma binary_bits_bitmap:
  assumes "length (visit n p) = n" and "i < 8" and "\<forall>m\<ge>i. \<not> bit byte m"
  shows "\<exists>out i' byte'. binary_bits n i byte p = Some (out, i', byte', advance n p)
           \<and> length (out @ (if i' \<noteq> 0 then [byte'] else [])) = (i + n + 7) div 8
           \<and> (\<forall>j<n. bit ((out @ (if i' \<noteq> 0 then [byte'] else [])) ! ((i + j) div 8)) ((i + j) mod 8)
                      = (val (mtl_token (visit n p ! j)) \<noteq> 0))
           \<and> (\<forall>m<i. bit ((out @ (if i' \<noteq> 0 then [byte'] else [])) ! 0) m = bit byte m)"
  using assms
proof (induction n arbitrary: p i byte)
  case 0
  then show ?case by auto
next
  case (Suc n)
  from Suc.prems(1) obtain t ts where p: "p = t # ts"
    and l: "length (visit n (next_status_token p)) = n"
    unfolding visit_length_Cons by blast
  define byte1 where "byte1 = (if val (mtl_token t) \<noteq> 0 then byte OR push_bit i 1 else byte)"
  have b1: "bit byte1 m \<longleftrightarrow> bit byte m \<or> (m = i \<and> val (mtl_token t) \<noteq> 0)" for m
    using Suc.prems(2) by (auto simp: byte1_def bit_set_flag)
  show ?case
  proof (cases "i + 1 \<ge> 8")
    case True
    then have i: "i = 7" using Suc.prems(2) by simp
    from Suc.IH [OF l, of 0 0]
    obtain out i' byte' where
      r: "binary_bits n 0 0 (next_status_token p) = Some (out, i', byte', advance n (next_status_token p))"
      and len: "length (out @ (if i' \<noteq> 0 then [byte'] else [])) = (n + 7) div 8"
      and bits: "\<forall>j<n. bit ((out @ (if i' \<noteq> 0 then [byte'] else [])) ! (j div 8)) (j mod 8)
                      = (val (mtl_token (visit n (next_status_token p) ! j)) \<noteq> 0)"
      by auto
    let ?O = "out @ (if i' \<noteq> 0 then [byte'] else [])"
    have e: "binary_bits (Suc n) i byte p = Some (byte1 # out, i', byte', advance (Suc n) p)"
      using r i by (simp add: p byte1_def Let_def)
    have o: "(byte1 # out) @ (if i' \<noteq> 0 then [byte'] else []) = byte1 # ?O" by simp
    have A: "length (byte1 # ?O) = (i + Suc n + 7) div 8"
      using len i by simp
    have B: "\<forall>j<Suc n. bit ((byte1 # ?O) ! ((i + j) div 8)) ((i + j) mod 8)
                      = (val (mtl_token (visit (Suc n) p ! j)) \<noteq> 0)"
    proof (intro allI impI)
      fix j assume j: "j < Suc n"
      show "bit ((byte1 # ?O) ! ((i + j) div 8)) ((i + j) mod 8)
                      = (val (mtl_token (visit (Suc n) p ! j)) \<noteq> 0)"
      proof (cases j)
        case 0
        then show ?thesis using Suc.prems(3) i by (simp add: p b1)
      next
        case (Suc j')
        have "(7 + Suc j') div 8 = Suc (j' div 8)" "(7 + Suc j') mod 8 = j' mod 8" by simp_all
        then show ?thesis using bits j Suc i by (simp add: p)
      qed
    qed
    have C: "\<forall>m<i. bit ((byte1 # ?O) ! 0) m = bit byte m"
      by (simp add: b1)
    show ?thesis
    proof (intro exI conjI)
      show "binary_bits (Suc n) i byte p = Some (byte1 # out, i', byte', advance (Suc n) p)"
        by (rule e)
      show "length ((byte1 # out) @ (if i' \<noteq> 0 then [byte'] else [])) = (i + Suc n + 7) div 8"
        unfolding o by (rule A)
      show "\<forall>j<Suc n. bit (((byte1 # out) @ (if i' \<noteq> 0 then [byte'] else [])) ! ((i + j) div 8))
                ((i + j) mod 8) = (val (mtl_token (visit (Suc n) p ! j)) \<noteq> 0)"
        unfolding o by (rule B)
      show "\<forall>m<i. bit (((byte1 # out) @ (if i' \<noteq> 0 then [byte'] else [])) ! 0) m = bit byte m"
        unfolding o by (rule C)
    qed
  next
    case False
    then have i: "i < 7" by simp
    have z: "\<forall>m\<ge>i + 1. \<not> bit byte1 m" using Suc.prems(3) by (auto simp: b1)
    from Suc.IH [OF l _ z] i
    obtain out i' byte' where
      r: "binary_bits n (i + 1) byte1 (next_status_token p)
            = Some (out, i', byte', advance n (next_status_token p))"
      and len: "length (out @ (if i' \<noteq> 0 then [byte'] else [])) = (i + 1 + n + 7) div 8"
      and bits: "\<forall>j<n. bit ((out @ (if i' \<noteq> 0 then [byte'] else [])) ! ((i + 1 + j) div 8))
                      ((i + 1 + j) mod 8)
                      = (val (mtl_token (visit n (next_status_token p) ! j)) \<noteq> 0)"
      and keep: "\<forall>m<i + 1. bit ((out @ (if i' \<noteq> 0 then [byte'] else [])) ! 0) m = bit byte1 m"
      by auto
    let ?O = "out @ (if i' \<noteq> 0 then [byte'] else [])"
    have e: "binary_bits (Suc n) i byte p = Some (out, i', byte', advance (Suc n) p)"
      using r i by (simp add: p byte1_def Let_def)
    have A: "length ?O = (i + Suc n + 7) div 8" using len by simp
    have B: "\<forall>j<Suc n. bit (?O ! ((i + j) div 8)) ((i + j) mod 8)
                      = (val (mtl_token (visit (Suc n) p ! j)) \<noteq> 0)"
    proof (intro allI impI)
      fix j assume j: "j < Suc n"
      show "bit (?O ! ((i + j) div 8)) ((i + j) mod 8)
                      = (val (mtl_token (visit (Suc n) p ! j)) \<noteq> 0)"
      proof (cases j)
        case 0
        have "bit (?O ! 0) i = bit byte1 i" using keep by simp
        then show ?thesis using 0 i Suc.prems(3) by (simp add: p b1)
      next
        case (Suc j')
        then show ?thesis using bits j by (simp add: p)
      qed
    qed
    have C: "\<forall>m<i. bit (?O ! 0) m = bit byte m"
      using keep by (simp add: b1)
    show ?thesis
    proof (intro exI conjI)
      show "binary_bits (Suc n) i byte p = Some (out, i', byte', advance (Suc n) p)"
        by (rule e)
    qed (rule A B C)+
  qed
qed


lemma visit_filter:
  assumes "p = [] \<or> should_broadcast (hd p)" and "length (visit n p) = n"
  shows "filter should_broadcast p = visit n p @ filter should_broadcast (advance n p)"
  using assms
proof (induction n arbitrary: p)
  case 0
  show ?case by simp
next
  case (Suc n)
  from Suc.prems(2) obtain t ts where p: "p = t # ts"
    and l: "length (visit n (next_status_token p)) = n"
    unfolding visit_length_Cons by blast
  have sb: "should_broadcast t" using Suc.prems(1) p by simp
  have h: "next_status_token p = [] \<or> should_broadcast (hd (next_status_token p))"
    using next_status_token_hd [of p] by (cases "next_status_token p") auto
  from Suc.IH [OF h l] show ?case
    using sb by (simp add: p next_status_token_filter)
qed

lemma visit_set: "set (visit n p) \<subseteq> set p"
proof (induction n arbitrary: p)
  case 0
  show ?case by simp
next
  case (Suc n)
  show ?case
  proof (cases p)
    case Nil
    then show ?thesis by simp
  next
    case (Cons t ts)
    have "set (visit n (next_status_token p)) \<subseteq> set p"
      using Suc.IH [of "next_status_token p"] next_status_token_set [of p] by blast
    then show ?thesis by (simp add: Cons)
  qed
qed

lemma advance_set: "set (advance n p) \<subseteq> set p"
proof (induction n arbitrary: p)
  case 0
  show ?case by simp
next
  case (Suc n)
  show ?case using Suc.IH [of "next_status_token p"] next_status_token_set [of p] by auto
qed

lemma advance_length: "length (advance (Suc n) p) \<le> length p - 1"
proof (induction n arbitrary: p)
  case 0
  show ?case using next_status_token_length [of p] by simp
next
  case (Suc n)
  have "length (advance (Suc n) (next_status_token p)) \<le> length (next_status_token p) - 1"
    by (rule Suc.IH)
  then show ?case using next_status_token_length [of p] by simp
qed

lemma key_high_byte:
  assumes "(k :: 16 word) < 0x6000"
  shows "(ucast (drop_bit 8 k) :: 8 word) AND 0xE0 < 0x60"
proof -
  have "unat k < 24576" using assms by (simp add: word_less_nat_alt)
  then have "unat k div 256 < 96" by simp
  then have "unat (drop_bit 8 k) < 96" by (simp add: drop_bit_eq_div unat_div)
  then have "unat (ucast (drop_bit 8 k) :: 8 word) < 96"
    by (simp add: unsigned_ucast_eq take_bit_eq_mod)
  then have "(ucast (drop_bit 8 k) :: 8 word) < 0x60" by (simp add: word_less_nat_alt)
  moreover have "(ucast (drop_bit 8 k) :: 8 word) AND 0xE0 \<le> ucast (drop_bit 8 k)"
    by (rule word_and_le2)
  ultimately show ?thesis by simp
qed

lemma key_recombine:
  "push_bit 8 (ucast (ucast (drop_bit 8 k) :: 8 word) :: 16 word) OR ucast (ucast k :: 8 word)
   = (k :: 16 word)"
  by (rule bit_eqI) (auto simp add: bit_simps)

lemma low5_and_E0:
  assumes "n < 32"
  shows "(of_nat n :: 8 word) AND 0xE0 = 0" and "(of_nat n :: 8 word) AND 31 = of_nat n"
    and "unat (of_nat n :: 8 word) = n"
proof -
  have t: "take_bit 5 (of_nat n :: 8 word) = of_nat n"
    using assms by (simp add: take_bit_of_nat take_bit_nat_eq_self)
  have e: "(0xE0 :: 8 word) = push_bit 5 7" by simp
  have "take_bit 5 w AND push_bit 5 x = 0" for w x :: "8 word"
    by (rule bit_eqI) (auto simp add: bit_simps)
  from this [of "of_nat n" 7] show "(of_nat n :: 8 word) AND 0xE0 = 0" unfolding t e .
  have m: "(31 :: 8 word) = mask 5" by (simp add: mask_eq_exp_minus_1)
  have "(of_nat n :: 8 word) AND mask 5 = take_bit 5 (of_nat n)"
    by (simp add: take_bit_eq_mask)
  then show "(of_nat n :: 8 word) AND 31 = of_nat n" unfolding t m .
  show "unat (of_nat n :: 8 word) = n"
    using assms by (simp add: unsigned_of_nat take_bit_nat_eq_self)
qed

lemma repeat_byte:
  assumes "n < 32"
  shows "((of_nat n :: 8 word) OR 0x60) AND 0xE0 = 0x60"
    and "((of_nat n :: 8 word) OR 0x80) AND 0xE0 = 0x80"
    and "unat (((of_nat n :: 8 word) OR 0x60) AND (32 - 1)) = n"
    and "unat (((of_nat n :: 8 word) OR 0x80) AND (32 - 1)) = n"
  using low5_and_E0 [OF assms]
  by (simp_all add: bit.conj_disj_distrib2)


lemma decode_single:
  assumes "key (mtl_token t) < 0x6000"
  shows "decompress_token a f (ucast (drop_bit 8 (key (mtl_token t))))
           (ucast (key (mtl_token t)) # value_bytes (Key_ValueSize (key (mtl_token t))) (val (mtl_token t)) @ R)
         = ([received a f t], Inr R)"
proof -
  let ?hi = "ucast (drop_bit 8 (key (mtl_token t))) :: 8 word"
  have lt: "?hi AND 0xE0 < 0x60" using assms by (rule key_high_byte)
  then have ty: "\<not> 0x80 < ?hi AND 0xE0" "0x60 \<noteq> ?hi AND 0xE0" "0x80 \<noteq> ?hi AND 0xE0"
    "?hi AND 0xE0 \<noteq> 0x80" "?hi AND 0xE0 \<noteq> 0x60"
    by (auto simp: word_less_nat_alt)
  show ?thesis
    unfolding decompress_token_def Let_def
    by (simp add: ty key_recombine read_value_value_bytes received_def)
qed

lemma decode_analog:
  assumes "n < 32"
    and "map (\<lambda>x. key (mtl_token x)) (t # X) = map of_nat [kn ..< kn + length (t # X)]"
    and "\<forall>x \<in> set (t # X). Key_ValueSize (key (mtl_token x)) = valueSize"
    and "length X = n"
  shows "decompress_token a f (of_nat n OR KeyPrefix_AnalogRepeat)
           (OutputToken t @ concat (map (\<lambda>x. value_bytes valueSize (val (mtl_token x))) X) @ R)
         = (map (received a f) (t # X), Inr R)"
proof -
  have up: "[kn ..< kn + length (t # X)] = kn # [Suc kn ..< Suc kn + length X]"
    by (subst upt_rec) simp
  have k: "key (mtl_token t) = of_nat kn" using assms(2) unfolding up by simp
  have vs: "Key_ValueSize (key (mtl_token t)) = valueSize" using assms(3) by simp
  have s: "analog_series (length (t # X)) valueSize (of_nat kn) a f
           (concat (map (\<lambda>x. value_bytes valueSize (val (mtl_token x))) (t # X)) @ R)
         = (map (received a f) (t # X), Some R)"
    using assms(2,3) by (rule analog_series_tokens)
  have s': "analog_series (Suc n) valueSize (key (mtl_token t)) a f
           (value_bytes valueSize (val (mtl_token t))
              @ concat (map (\<lambda>x. value_bytes valueSize (val (mtl_token x))) X) @ R)
         = (map (received a f) (t # X), Some R)"
    using s by (simp add: k assms(4) del: analog_series.simps)
  have ty: "\<not> (0x80 :: 8 word) < 0x80" by simp
  show ?thesis
    unfolding decompress_token_def Let_def OutputToken_def
    using repeat_byte(2,4) [OF assms(1)]
    by (simp add: key_recombine vs s' del: analog_series.simps)
qed

lemma decode_binary:
  assumes "n < 32"
    and "map (\<lambda>x. key (mtl_token x)) (t # X) = map of_nat [kn ..< kn + length (t # X)]"
    and "\<forall>x \<in> set (t # X). Key_ValueSize (key (mtl_token x)) = valueSize"
    and "length X = n"
    and "\<forall>x \<in> set (t # X). val (mtl_token x) = 0 \<or> val (mtl_token x) = v"
    and "length bitmap = (n + 1 + 7) div 8"
    and "\<forall>j<n + 1. bit (bitmap ! (j div 8)) (j mod 8) = (val (mtl_token ((t # X) ! j)) \<noteq> 0)"
  shows "decompress_token a f (of_nat n OR KeyPrefix_BinaryRepeat)
           (OutputTokenKey (key (mtl_token t)) @ value_bytes valueSize v @ bitmap @ R)
         = (map (received a f) (t # X), Inr R)"
proof -
  have up: "[kn ..< kn + length (t # X)] = kn # [Suc kn ..< Suc kn + length X]"
    by (subst upt_rec) simp
  have k: "key (mtl_token t) = of_nat kn" using assms(2) unfolding up by simp
  have vs: "Key_ValueSize (key (mtl_token t)) = valueSize" using assms(3) by simp
  have len: "length (t # X) = n + 1" using assms(4) by simp
  have bits: "\<forall>j < length (t # X).
       bit (((0 :: 8 word) # bitmap @ R) ! ((min 8 7 + 1 + j) div 8)) ((min 8 7 + 1 + j) mod 8)
         = (val (mtl_token ((t # X) ! j)) \<noteq> 0)"
  proof (intro allI impI)
    fix j assume j: "j < length (t # X)"
    have d: "(min 8 7 + 1 + j) div 8 = Suc (j div 8)" "(min 8 7 + 1 + j) mod 8 = j mod 8"
      by simp_all
    have "j div 8 < length bitmap" using j len assms(6) by simp
    then have "(bitmap @ R) ! (j div 8) = bitmap ! (j div 8)" by (simp add: nth_append)
    then show "bit (((0 :: 8 word) # bitmap @ R) ! ((min 8 7 + 1 + j) div 8)) ((min 8 7 + 1 + j) mod 8)
         = (val (mtl_token ((t # X) ! j)) \<noteq> 0)"
      unfolding d using assms(7) j len by simp
  qed
  have room: "(min 8 7 + length (t # X)) div 8 \<le> length (bitmap @ R)"
    using assms(6) len by simp
  have "(8 :: nat) < 7 \<longrightarrow> (0 :: 16 word) = drop_bit 8 (ucast (0 :: 8 word))" by simp
  from binary_series_tokens [OF assms(2) this bits room, of "take_bit (8 * valueSize) v" a f]
  have s: "binary_series (length (t # X)) 8 0 (take_bit (8 * valueSize) v) (of_nat kn) a f (bitmap @ R)
       = (map (\<lambda>x. \<lparr>flags = f, address = a, key = key (mtl_token x),
                     val = (if val (mtl_token x) \<noteq> 0 then take_bit (8 * valueSize) v else 0)\<rparr>) (t # X),
          Some (drop ((min 8 7 + length (t # X)) div 8) (bitmap @ R)))" .
  have dr: "drop ((min 8 7 + length (t # X)) div 8) (bitmap @ R) = R"
    using assms(6) len by simp
  have rx: "map (\<lambda>x. \<lparr>flags = f, address = a, key = key (mtl_token x),
                     val = (if val (mtl_token x) \<noteq> 0 then take_bit (8 * valueSize) v else 0)\<rparr>) (t # X)
            = map (received a f) (t # X)"
  proof (rule map_cong [OF refl])
    fix x assume x: "x \<in> set (t # X)"
    then have "Key_ValueSize (key (mtl_token x)) = valueSize" using assms(3) by blast
    moreover have "val (mtl_token x) = 0 \<or> val (mtl_token x) = v" using assms(5) x by blast
    ultimately show "\<lparr>flags = f, address = a, key = key (mtl_token x),
                     val = (if val (mtl_token x) \<noteq> 0 then take_bit (8 * valueSize) v else 0)\<rparr>
            = received a f x"
      by (auto simp: received_def)
  qed
  have s': "binary_series (Suc n) 8 0 (take_bit (8 * valueSize) v) (key (mtl_token t)) a f (bitmap @ R)
       = (map (received a f) (t # X), Some R)"
    using s unfolding dr rx by (simp add: k assms(4) del: binary_series.simps)
  show ?thesis
    unfolding decompress_token_def Let_def OutputTokenKey_def
    using repeat_byte(1,3) [OF assms(1)]
    by (simp add: key_recombine vs read_value_value_bytes s' del: binary_series.simps)
qed


lemma OutputToken_Cons:
  "OutputToken t = ucast (drop_bit 8 (key (mtl_token t)))
     # ucast (key (mtl_token t)) # value_bytes (Key_ValueSize (key (mtl_token t))) (val (mtl_token t))"
  by (simp add: OutputToken_def)

lemma compress_token_decodes:
  assumes sb: "should_broadcast t"
    and ok: "\<forall>x \<in> set (t # ts). should_broadcast x \<longrightarrow> key (mtl_token x) < 0x6000"
  shows "\<exists>b out p X. compress_token t ts = Some (b # out, p)
          \<and> filter should_broadcast (t # ts) = X @ filter should_broadcast p
          \<and> set p \<subseteq> set (t # ts)
          \<and> length (b # out) \<le> 7 * length X
          \<and> (\<forall>R. decompress_token a f b (out @ R) = (map (received a f) X, Inr R))"
proof -
  let ?vs = "Key_ValueSize (key (mtl_token t))"
  have kt: "key (mtl_token t) < 0x6000" using sb ok by simp
  have v4: "?vs \<le> 4" by (rule Key_ValueSize_le)
  have single: "\<exists>b out p X. Some (OutputToken t, ts) = Some (b # out, p)
          \<and> filter should_broadcast (t # ts) = X @ filter should_broadcast p
          \<and> set p \<subseteq> set (t # ts)
          \<and> length (b # out) \<le> 7 * length X
          \<and> (\<forall>R. decompress_token a f b (out @ R) = (map (received a f) X, Inr R))"
  proof (intro exI conjI allI)
    show "length (ucast (drop_bit 8 (key (mtl_token t)))
        # (ucast (key (mtl_token t)) # value_bytes ?vs (val (mtl_token t)))) \<le> 7 * length [t]"
      using v4 by (simp add: length_value_bytes)
    show "Some (OutputToken t, ts) = Some (ucast (drop_bit 8 (key (mtl_token t)))
        # (ucast (key (mtl_token t)) # value_bytes ?vs (val (mtl_token t))), ts)"
      by (simp add: OutputToken_Cons)
    show "filter should_broadcast (t # ts) = [t] @ filter should_broadcast ts"
      using sb by simp
    show "set ts \<subseteq> set (t # ts)" by auto
    fix R
    show "decompress_token a f (ucast (drop_bit 8 (key (mtl_token t))))
            ((ucast (key (mtl_token t)) # value_bytes ?vs (val (mtl_token t))) @ R)
          = (map (received a f) [t], Inr R)"
      using decode_single [OF kt, of a f R] by simp
  qed
  show ?thesis
  proof (cases "?vs = 0")
    case True
    then show ?thesis using single by (simp add: compress_token_def)
  next
    case vs: False
    obtain na nb v where sc:
      "series_scan ?vs 0 0 (val (mtl_token t)) (unat (key (mtl_token t)) + 1) (t # ts) = (na, nb, v)"
      by (cases "series_scan ?vs 0 0 (val (mtl_token t)) (unat (key (mtl_token t)) + 1) (t # ts)")
    let ?X = "visit na (next_status_token (t # ts))"
    from series_scan_series [OF sc]
    have na: "na \<le> 31" and lx: "length ?X = na"
      and keys: "map (\<lambda>x. key (mtl_token x)) ?X
                  = map of_nat [unat (key (mtl_token t)) + 1 ..< unat (key (mtl_token t)) + 1 + na]"
      and sizes: "\<forall>x \<in> set ?X. Key_ValueSize (key (mtl_token x)) = ?vs"
      and bin: "nb < 32 \<Longrightarrow> nb = na \<and> (\<forall>x \<in> set ?X. val (mtl_token x) = 0 \<or> val (mtl_token x) = v)
                  \<and> (val (mtl_token t) \<noteq> 0 \<longrightarrow> v = val (mtl_token t))"
      by simp_all
    have vis: "visit (Suc na) (t # ts) = t # ?X" by simp
    have lv: "length (visit (Suc na) (t # ts)) = Suc na" using lx by simp
    have keys': "map (\<lambda>x. key (mtl_token x)) (t # ?X)
                  = map of_nat [unat (key (mtl_token t)) ..< unat (key (mtl_token t)) + length (t # ?X)]"
    proof -
      have "[unat (key (mtl_token t)) ..< unat (key (mtl_token t)) + length (t # ?X)]
            = unat (key (mtl_token t)) # [unat (key (mtl_token t)) + 1 ..< unat (key (mtl_token t)) + 1 + na]"
        using lx by (subst upt_rec) simp
      then show ?thesis using keys by simp
    qed
    have sizes': "\<forall>x \<in> set (t # ?X). Key_ValueSize (key (mtl_token x)) = ?vs"
      using sizes by simp
    have flt: "filter should_broadcast (t # ts)
               = (t # ?X) @ filter should_broadcast (advance (Suc na) (t # ts))"
      using visit_filter [of "t # ts" "Suc na"] sb lv by (simp del: visit.simps advance.simps add: vis)
    have sub: "set (advance (Suc na) (t # ts)) \<subseteq> set (t # ts)" by (rule advance_set)
    show ?thesis
    proof (cases "nb \<noteq> 0 \<and> nb < 32")
      case True
      then have nbna: "nb = na" and vals: "\<forall>x \<in> set ?X. val (mtl_token x) = 0 \<or> val (mtl_token x) = v"
        and v0: "val (mtl_token t) \<noteq> 0 \<longrightarrow> v = val (mtl_token t)"
        using bin by simp_all
      have vals': "\<forall>x \<in> set (t # ?X). val (mtl_token x) = 0 \<or> val (mtl_token x) = v"
        using vals v0 by auto
      have z: "\<forall>m\<ge>(0::nat). \<not> bit (0 :: 8 word) m" by simp
      from binary_bits_bitmap [OF lv _ z]
      obtain out i' byte' where
        bb: "binary_bits (Suc na) 0 0 (t # ts) = Some (out, i', byte', advance (Suc na) (t # ts))"
        and len: "length (out @ (if i' \<noteq> 0 then [byte'] else [])) = (0 + Suc na + 7) div 8"
        and bits: "\<forall>j<Suc na. bit ((out @ (if i' \<noteq> 0 then [byte'] else [])) ! ((0 + j) div 8))
                      ((0 + j) mod 8) = (val (mtl_token (visit (Suc na) (t # ts) ! j)) \<noteq> 0)"
        by auto
      let ?O = "out @ (if i' \<noteq> 0 then [byte'] else [])"
      have ct: "compress_token t ts
          = Some ((of_nat na OR KeyPrefix_BinaryRepeat)
                    # (OutputTokenKey (key (mtl_token t)) @ value_bytes ?vs v @ ?O),
                  advance (Suc na) (t # ts))"
        using vs sc True bb nbna
        by (simp add: compress_token_def Let_def del: binary_bits.simps advance.simps)
      have dec: "decompress_token a f (of_nat na OR KeyPrefix_BinaryRepeat)
           ((OutputTokenKey (key (mtl_token t)) @ value_bytes ?vs v @ ?O) @ R)
         = (map (received a f) (t # ?X), Inr R)" for R
      proof -
        have n32: "na < 32" using na by simp
        have l1: "length ?O = (na + 1 + 7) div 8" using len by simp
        have b1: "\<forall>j<na + 1. bit (?O ! (j div 8)) (j mod 8) = (val (mtl_token ((t # ?X) ! j)) \<noteq> 0)"
          using bits unfolding vis by simp
        from decode_binary [OF n32 keys' sizes' lx vals' l1 b1, of a f R]
        show ?thesis by simp
      qed
      show ?thesis
      proof (intro exI conjI allI)
        show "compress_token t ts
          = Some ((of_nat na OR KeyPrefix_BinaryRepeat)
                    # (OutputTokenKey (key (mtl_token t)) @ value_bytes ?vs v @ ?O),
                  advance (Suc na) (t # ts))" by (rule ct)
        show "filter should_broadcast (t # ts)
               = (t # ?X) @ filter should_broadcast (advance (Suc na) (t # ts))" by (rule flt)
        show "set (advance (Suc na) (t # ts)) \<subseteq> set (t # ts)" by (rule sub)
        have "0 < na" using True nbna by simp
        moreover have "(na + 8) div 8 = Suc (na div 8)" by simp
        moreover have "na div 8 \<le> na" by (rule div_le_dividend)
        ultimately have "(na + 8) div 8 \<le> 7 * na" by linarith
        then show "length ((of_nat na OR KeyPrefix_BinaryRepeat)
                    # (OutputTokenKey (key (mtl_token t)) @ value_bytes ?vs v @ ?O))
                 \<le> 7 * length (t # ?X)"
          using len v4 lx by (simp add: length_value_bytes OutputTokenKey_def)
        fix R
        show "decompress_token a f (of_nat na OR KeyPrefix_BinaryRepeat)
           ((OutputTokenKey (key (mtl_token t)) @ value_bytes ?vs v @ ?O) @ R)
         = (map (received a f) (t # ?X), Inr R)" by (rule dec)
      qed
    next
      case nobin: False
      show ?thesis
      proof (cases "na = 0")
        case True
        have ct: "compress_token t ts = Some (OutputToken t, ts)"
        proof (cases "nb = 0")
          case nb0: True
          show ?thesis using vs sc True nb0 by (simp add: compress_token_def Let_def)
        next
          case False
          then have "\<not> nb < 32" using nobin by simp
          then show ?thesis using vs sc True by (simp add: compress_token_def Let_def)
        qed
        show ?thesis using single unfolding ct .
      next
        case False
        have av: "analog_values na ?vs (next_status_token (t # ts))
              = Some (concat (map (\<lambda>x. value_bytes ?vs (val (mtl_token x))) ?X),
                      advance na (next_status_token (t # ts)))"
          using lx by (rule analog_values_visit)
        have ct: "compress_token t ts
          = Some ((of_nat na OR KeyPrefix_AnalogRepeat)
                    # (OutputToken t @ concat (map (\<lambda>x. value_bytes ?vs (val (mtl_token x))) ?X)),
                  advance (Suc na) (t # ts))"
        proof (cases "nb = 0")
          case nb0: True
          show ?thesis using vs sc False av nb0
            by (simp add: compress_token_def Let_def del: analog_values.simps binary_bits.simps)
        next
          case nbn: False
          then have "\<not> nb < 32" using nobin by simp
          then show ?thesis using vs sc False av
            by (simp add: compress_token_def Let_def del: analog_values.simps binary_bits.simps)
        qed
        have n32: "na < 32" using na by simp
        show ?thesis
        proof (intro exI conjI allI)
          show "compress_token t ts
            = Some ((of_nat na OR KeyPrefix_AnalogRepeat)
                    # (OutputToken t @ concat (map (\<lambda>x. value_bytes ?vs (val (mtl_token x))) ?X)),
                  advance (Suc na) (t # ts))" by (rule ct)
          show "filter should_broadcast (t # ts)
               = (t # ?X) @ filter should_broadcast (advance (Suc na) (t # ts))" by (rule flt)
          show "set (advance (Suc na) (t # ts)) \<subseteq> set (t # ts)" by (rule sub)
          have cl: "length (concat (map (\<lambda>x. value_bytes ?vs (val (mtl_token x))) ?X)) = ?vs * na"
            using lx by (simp add: length_concat length_value_bytes comp_def sum_list_triv)
          have q: "?vs * na \<le> 4 * na" using v4 by (rule mult_le_mono1)
          have "length ((of_nat na OR KeyPrefix_AnalogRepeat)
                    # (OutputToken t @ concat (map (\<lambda>x. value_bytes ?vs (val (mtl_token x))) ?X)))
                = 1 + (2 + ?vs) + ?vs * na"
            unfolding length_Cons length_append cl by (simp add: length_value_bytes OutputToken_def)
          moreover have "1 + (2 + ?vs) + ?vs * na \<le> 7 * Suc na"
          proof -
            define m where "m = ?vs * na"
            have "m \<le> 4 * na" using q by (simp add: m_def)
            then have "1 + (2 + ?vs) + m \<le> 7 * na + 7" using v4 by linarith
            then show ?thesis by (simp add: m_def)
          qed
          ultimately show "length ((of_nat na OR KeyPrefix_AnalogRepeat)
                    # (OutputToken t @ concat (map (\<lambda>x. value_bytes ?vs (val (mtl_token x))) ?X)))
                 \<le> 7 * length (t # ?X)"
            using lx by simp
          fix R
          show "decompress_token a f (of_nat na OR KeyPrefix_AnalogRepeat)
             ((OutputToken t @ concat (map (\<lambda>x. value_bytes ?vs (val (mtl_token x))) ?X)) @ R)
           = (map (received a f) (t # ?X), Inr R)"
            using decode_analog [OF n32 keys' sizes' lx, of a f R] by simp
        qed
      qed
    qed
  qed
qed


lemma compress_loop_decodes:
  assumes "\<forall>x \<in> set p. should_broadcast x \<longrightarrow> key (mtl_token x) < 0x6000"
  shows "\<exists>bytes. compress_loop p = Some bytes
           \<and> length bytes \<le> 7 * length (filter should_broadcast p)
           \<and> decompress_loop a f bytes = (0, map (received a f) (filter should_broadcast p))"
  using assms
proof (induction p rule: compress_loop.induct)
  case 1
  show ?case by simp
next
  case (2 t ts)
  show ?case
  proof (cases "should_broadcast t")
    case False
    have "\<forall>x \<in> set ts. should_broadcast x \<longrightarrow> key (mtl_token x) < 0x6000"
      using "2.prems" by simp
    from "2.IH"(1) [OF False this] show ?thesis using False by simp
  next
    case True
    from compress_token_decodes [OF True "2.prems", of a f]
    obtain b out p X where ct: "compress_token t ts = Some (b # out, p)"
      and flt: "filter should_broadcast (t # ts) = X @ filter should_broadcast p"
      and sub: "set p \<subseteq> set (t # ts)"
      and bnd: "length (b # out) \<le> 7 * length X"
      and dec: "\<And>R. decompress_token a f b (out @ R) = (map (received a f) X, Inr R)"
      by blast
    have okp: "\<forall>x \<in> set p. should_broadcast x \<longrightarrow> key (mtl_token x) < 0x6000"
      using "2.prems" sub by blast
    have nn: "\<not> \<not> should_broadcast t" using True by simp
    from "2.IH"(2) [OF nn ct refl okp]
    obtain later where l: "compress_loop p = Some later"
      and lb: "length later \<le> 7 * length (filter should_broadcast p)"
      and d: "decompress_loop a f later = (0, map (received a f) (filter should_broadcast p))"
      by blast
    have c: "compress_loop (t # ts) = Some ((b # out) @ later)"
      using True ct l by simp
    have "decompress_loop a f ((b # out) @ later)
          = (0, map (received a f) X @ map (received a f) (filter should_broadcast p))"
      using dec [of later] d by simp
    moreover have "length ((b # out) @ later) \<le> 7 * length (X @ filter should_broadcast p)"
      using bnd lb by simp
    ultimately show ?thesis unfolding c flt by simp
  qed
qed

lemma received_fits:
  "take_bit (8 * Key_ValueSize (key (mtl_token x))) (val (mtl_token x)) = val (mtl_token x) \<Longrightarrow>
   received a f x = \<lparr>flags = f, address = a, key = key (mtl_token x), val = val (mtl_token x)\<rparr>"
  by (simp add: received_def)

lemma codec_round_trip:
  assumes "\<forall>x \<in> set T. should_broadcast x \<longrightarrow> key (mtl_token x) < 0x6000"
    and "7 * length T < 65536"
  shows "\<exists>stream. MatrixCodec_Compress T = Some (if T = [] then - 1 else 0, stream)
          \<and> length stream \<le> 7 * length T
          \<and> MatrixCodec_Decompress stream (of_nat (length stream)) a f
               = (if stream = [] then - 1 else 0,
                  map (received a f) (filter should_broadcast T))"
proof -
  from compress_loop_decodes [OF assms(1), of a f]
  obtain bytes where c: "compress_loop T = Some bytes"
    and b: "length bytes \<le> 7 * length (filter should_broadcast T)"
    and d: "decompress_loop a f bytes = (0, map (received a f) (filter should_broadcast T))"
    by blast
  have "length (filter should_broadcast T) \<le> length T" by (rule length_filter_le)
  then have b': "length bytes \<le> 7 * length T" using b by linarith
  then have l: "length bytes < 65536" using assms(2) by simp
  have e: "bytes = [] \<Longrightarrow> map (received a f) (filter should_broadcast T) = []"
    using d by simp
  have n: "unat (of_nat (length bytes) :: 16 word) = length bytes"
    using l by (simp add: unsigned_of_nat take_bit_nat_eq_self)
  have "((of_nat (length bytes) :: 16 word) = 0)
          = (unat (of_nat (length bytes) :: 16 word) = 0)"
    by (simp only: unsigned_eq_0_iff)
  then have z: "((of_nat (length bytes) :: 16 word) = 0) = (bytes = [])"
    unfolding n by simp
  have t: "T = [] \<Longrightarrow> bytes = []" using c by simp
  show ?thesis
  proof (intro exI conjI)
    show "MatrixCodec_Compress T = Some (if T = [] then - 1 else 0, bytes)"
      using c t by (auto simp: MatrixCodec_Compress_def)
    show "length bytes \<le> 7 * length T" by (rule b')
    show "MatrixCodec_Decompress bytes (of_nat (length bytes)) a f
               = (if bytes = [] then - 1 else 0,
                  map (received a f) (filter should_broadcast T))"
      using d e z n by (simp add: MatrixCodec_Decompress_def)
  qed
qed


lemma example_sizes:
  "Key_ValueSize 0x23E8 = 1" "Key_ValueSize 0x23E9 = 1" "Key_ValueSize 0x23EA = 1"
  "Key_ValueSize 0x33E8 = 2" "Key_ValueSize 0x33E9 = 2" "Key_ValueSize 0x5F40 = 0"
  by (simp_all add: Key_ValueSize_def)

text \<open>
  C1, as amended. For every token array of at most 9362 tokens (so that the stream
  length fits the 16-bit \<^verbatim>\<open>numBytes\<close> of the decompressor) in which every token flagged
  for broadcast has its key below 0x6000 (a Command, OutputStatus or InputStatus prefix)
  and a value that fits the value size of its key: \<open>MatrixCodec_Compress\<close> returns
  (0, or -1 for an empty array), and \<open>MatrixCodec_Decompress\<close> on the bytes it produced
  gives the token sink exactly the flagged tokens, in order, each with its key and its
  value and with the address passed in (it returns 0, or -1 when no byte was produced).
  The order of the keys plays no part.
\<close>

theorem C1_codec_round_trip:
  assumes "\<forall>x \<in> set T. should_broadcast x \<longrightarrow>
             key (mtl_token x) < 0x6000
             \<and> take_bit (8 * Key_ValueSize (key (mtl_token x))) (val (mtl_token x)) = val (mtl_token x)"
    and "7 * length T < 65536"
  shows "\<exists>stream. MatrixCodec_Compress T = Some (if T = [] then - 1 else 0, stream)
          \<and> MatrixCodec_Decompress stream (of_nat (length stream)) a f
               = (if stream = [] then - 1 else 0,
                  map (\<lambda>x. \<lparr>flags = f, address = a, key = key (mtl_token x), val = val (mtl_token x)\<rparr>)
                    (filter should_broadcast T))"
proof -
  have k: "\<forall>x \<in> set T. should_broadcast x \<longrightarrow> key (mtl_token x) < 0x6000"
    using assms(1) by blast
  have "map (received a f) (filter should_broadcast T)
        = map (\<lambda>x. \<lparr>flags = f, address = a, key = key (mtl_token x), val = val (mtl_token x)\<rparr>)
            (filter should_broadcast T)"
    using assms(1) by (intro map_cong refl) (simp add: received_fits)
  then show ?thesis using codec_round_trip [OF k assms(2), of a f] by auto
qed

lemma value_bytes_numeral:
  "value_bytes (numeral k) v = ucast (drop_bit (8 * pred_numeral k) v) # value_bytes (pred_numeral k) v"
  by (simp add: numeral_eq_Suc)

lemma example_compress:
  "MatrixCodec_Compress example_table
   = Some (0, [0x62, 0x23, 0xE8, 0x05, 0x05, 0x81, 0x33, 0xE8, 0x12, 0x34, 0x01, 0x02, 0x5F, 0x40])"
  by (simp add: MatrixCodec_Compress_def example_table_def should_broadcast_def compress_token_def
      series_scan.simps next_status_token_def example_sizes OutputToken_def OutputTokenKey_def
      Let_def value_bytes_numeral)

theorem C1_witness:
  "7 * length example_table < 65536
   \<and> map (\<lambda>x. (should_broadcast x, key (mtl_token x), val (mtl_token x))) example_table
      = [(True, 0x23E8, 5), (False, 0x23E9, 7), (True, 0x23E9, 0), (True, 0x23EA, 5),
         (True, 0x33E8, 0x1234), (True, 0x33E9, 0x0102), (True, 0x5F40, 0)]
   \<and> MatrixCodec_Compress example_table
      = Some (0, [0x62, 0x23, 0xE8, 0x05, 0x05, 0x81, 0x33, 0xE8, 0x12, 0x34, 0x01, 0x02, 0x5F, 0x40])
   \<and> MatrixCodec_Decompress
        [0x62, 0x23, 0xE8, 0x05, 0x05, 0x81, 0x33, 0xE8, 0x12, 0x34, 0x01, 0x02, 0x5F, 0x40] 14 9 0
      = (0, [\<lparr>flags = 0, address = 9, key = 0x23E8, val = 5\<rparr>,
             \<lparr>flags = 0, address = 9, key = 0x23E9, val = 0\<rparr>,
             \<lparr>flags = 0, address = 9, key = 0x23EA, val = 5\<rparr>,
             \<lparr>flags = 0, address = 9, key = 0x33E8, val = 0x1234\<rparr>,
             \<lparr>flags = 0, address = 9, key = 0x33E9, val = 0x0102\<rparr>,
             \<lparr>flags = 0, address = 9, key = 0x5F40, val = 0\<rparr>])"
proof -
  have h: "\<forall>x \<in> set example_table. should_broadcast x \<longrightarrow>
             key (mtl_token x) < 0x6000
             \<and> take_bit (8 * Key_ValueSize (key (mtl_token x))) (val (mtl_token x)) = val (mtl_token x)"
    by (simp add: example_table_def should_broadcast_def example_sizes take_bit_eq_mod)
  have l: "7 * length example_table < 65536" by (simp add: example_table_def)
  have m: "map (\<lambda>x. (should_broadcast x, key (mtl_token x), val (mtl_token x))) example_table
      = [(True, 0x23E8, 5), (False, 0x23E9, 7), (True, 0x23E9, 0), (True, 0x23EA, 5),
         (True, 0x33E8, 0x1234), (True, 0x33E9, 0x0102), (True, 0x5F40, 0)]"
    by (simp add: example_table_def should_broadcast_def)
  have fl: "filter should_broadcast example_table
      = [example_table ! 0, example_table ! 2, example_table ! 3, example_table ! 4,
         example_table ! 5, example_table ! 6]"
    by (simp add: example_table_def should_broadcast_def)
  from C1_codec_round_trip [OF h l, of 9 0]
  have "MatrixCodec_Decompress
        [0x62, 0x23, 0xE8, 0x05, 0x05, 0x81, 0x33, 0xE8, 0x12, 0x34, 0x01, 0x02, 0x5F, 0x40] 14 9 0
      = (0, map (\<lambda>x. \<lparr>flags = 0, address = 9, key = key (mtl_token x), val = val (mtl_token x)\<rparr>)
              (filter should_broadcast example_table))"
    unfolding example_compress by simp
  then show ?thesis unfolding fl using l m example_compress
    by (simp add: example_table_def)
qed

text \<open>
  C1 as stated fails when a value is wider than the size of its key: key 0x23E8 has a
  one-byte value, the token holds 0x100, the stream carries the low byte 0, and the
  decompressor gives the sink the value 0.
\<close>

theorem C1_counterexample:
  "sorted (map (\<lambda>x. key (mtl_token x)) overwide_table)
   \<and> map (\<lambda>x. (should_broadcast x, key (mtl_token x), val (mtl_token x))) overwide_table
      = [(True, 0x23E8, 0x100)]
   \<and> MatrixCodec_Compress overwide_table = Some (0, [0x23, 0xE8, 0x00])
   \<and> MatrixCodec_Decompress [0x23, 0xE8, 0x00] 3 9 0
      = (0, [\<lparr>flags = 0, address = 9, key = 0x23E8, val = 0\<rparr>])"
  by (simp add: overwide_table_def should_broadcast_def MatrixCodec_Compress_def
      compress_token_def series_scan.simps next_status_token_def example_sizes OutputToken_def
      MatrixCodec_Decompress_def decompress_token_def Let_def)

end
